theory Spec2Isabelle
  imports Main
begin

section \<open>The expression tree of \<open>parser/hassil\<close>\<close>

text \<open>
  \<open>expression_listener.py\<close> turns the parse of a sentence template into a tree of
  expressions. The listener keeps a list \<open>_sequences\<close> of the sequences under
  construction and mutates them in place; the same \<open>Sequence\<close> object is reachable from
  that list and from the \<open>items\<close> of its parent. The model therefore keeps the
  \<open>Sequence\<close> objects in an explicit store: an address is the position of the object in
  the list of all objects allocated so far, and an entry of an \<open>items\<close> list is either
  a leaf held by value or a reference to a \<open>Sequence\<close> object.
\<close>

datatype SequenceType = GROUP | ALTERNATIVE

text \<open>
  The expressions as values: what a finished tree is once it is read out of the store.
  The classes themselves are declared in \<open>expression.py\<close>, which is not among the
  sources; the constructors follow the calls of the listener: \<open>Word(text)\<close>,
  \<open>Number(n)\<close>, \<open>NumberRange(lower_bound, upper_bound, step)\<close>,
  \<open>ListReference(name)\<close>, \<open>RuleReference(name)\<close> and
  \<open>Sequence(type, items)\<close>.
\<close>

datatype expression =
    Word string
  | Number int
  | NumberRange int int int
  | ListReference string
  | RuleReference string
  | Sequence SequenceType "expression list"

type_synonym addr = nat

text \<open>
  An entry of an \<open>items\<close> list. \<open>Leaf\<close> carries a \<open>Word\<close>, \<open>Number\<close>,
  \<open>NumberRange\<close>, \<open>ListReference\<close> or \<open>RuleReference\<close> object, none of which the
  listener changes after it is built; \<open>Ref\<close> is a reference to a \<open>Sequence\<close> object.

  The list of an \<open>items\<close> attribute is held by value in its object: the listener
  never keeps a list in two objects. Where \<open>enterAlt\<close> and \<open>exitOptional\<close> hand the
  list of a sequence to a new \<open>GROUP\<close>, the sequence gets a new list in the same
  statement.
\<close>

datatype item = Leaf expression | Ref addr

record sequence =
  type :: SequenceType
  items :: "item list"

datatype error = AssertionError string | IndexError

text \<open>
  The listener object together with the store. \<open>sentence\<close> is the attribute
  \<open>_sentence\<close> and \<open>sequences\<close> the attribute \<open>_sequences\<close>, where \<open>None\<close> is
  \<open>GROUP_MARKER\<close>. The Python list \<open>_sequences\<close> is kept with its last element
  first: \<open>append\<close> is \<open>#\<close>, \<open>_sequences[-1]\<close> is the head, \<open>pop()\<close> drops the
  head and \<open>reversed(_sequences)\<close> is the list as it stands.
\<close>

record listener =
  sentences :: "addr list"
  sentence :: "addr option"
  sequences :: "addr option list"
  heap :: "sequence list"

definition init :: listener where
  "init = \<lparr>sentences = [], sentence = None, sequences = [], heap = []\<rparr>"

subsection \<open>Operations on the store\<close>

text \<open>
  \<open>Sequence(type=ty, items=its)\<close>: a new object, at the next free address. Without
  \<open>items\<close> the new sequence has none, and \<open>Sentence()\<close> is a \<open>GROUP\<close> with no
  items (the defaults are those of the spec: a new root is \<open>Sequence(GROUP, [])\<close>).
\<close>

definition new_Sequence :: "SequenceType \<Rightarrow> item list \<Rightarrow> sequence list \<Rightarrow> addr \<times> sequence list" where
  "new_Sequence ty its h = (length h, h @ [\<lparr>type = ty, items = its\<rparr>])"

definition set_items :: "addr \<Rightarrow> item list \<Rightarrow> sequence list \<Rightarrow> sequence list" where
  "set_items a its h = h[a := (h ! a)\<lparr>items := its\<rparr>]"

definition set_type :: "addr \<Rightarrow> SequenceType \<Rightarrow> sequence list \<Rightarrow> sequence list" where
  "set_type a ty h = h[a := (h ! a)\<lparr>type := ty\<rparr>]"

text \<open>
  \<open>a.items.append(x)\<close>. An address on the stack or in an \<open>items\<close> list was
  returned by \<open>new_Sequence\<close>, so it lies in the store; the theorems that start from
  an arbitrary state say so in their hypotheses.
\<close>

definition append_item :: "addr \<Rightarrow> item \<Rightarrow> sequence list \<Rightarrow> sequence list" where
  "append_item a x h = h[a := (h ! a)\<lparr>items := items (h ! a) @ [x]\<rparr>]"

subsection \<open>The sequence stack\<close>

text \<open>
  The two properties. \<open>assert last_sequence\<close> and \<open>assert parent_sequence\<close> test
  the truth value of the object: the marker \<open>None\<close> is false, a \<open>Sequence\<close> is true
  also when it has no items.
\<close>

definition last_sequence :: "listener \<Rightarrow> error + addr" where
  "last_sequence st =
     (case sequences st of
        [] \<Rightarrow> Inl (AssertionError ''No target sequence'')
      | None # _ \<Rightarrow> Inl (AssertionError ''Invalid target sequence'')
      | Some a # _ \<Rightarrow> Inr a)"

text \<open>
  The loop of \<open>last_parent_sequence\<close>: it runs over the reversed list, stops at the first
  marker and remembers the last sequence it has seen.
\<close>

fun parent_scan :: "addr option list \<Rightarrow> addr option \<Rightarrow> addr option" where
  "parent_scan [] parent = parent"
| "parent_scan (None # rest) parent = parent"
| "parent_scan (Some a # rest) parent = parent_scan rest (Some a)"

definition last_parent_sequence :: "listener \<Rightarrow> error + addr" where
  "last_parent_sequence st =
     (if sequences st = [] then Inl (AssertionError ''No target sequence'')
      else case parent_scan (sequences st) None of
             None \<Rightarrow> Inl (AssertionError ''No parent sequence'')
           | Some a \<Rightarrow> Inr a)"

text \<open>
  The \<open>while\<close> loop of \<open>_pop_group\<close>: \<open>self._sequences[-1]\<close> raises \<open>IndexError\<close>
  once the list is empty.
\<close>

fun pop_loop :: "addr option \<Rightarrow> addr option list \<Rightarrow> error + (addr option \<times> addr option list)" where
  "pop_loop item [] = Inl IndexError"
| "pop_loop item (None # rest) = Inr (item, None # rest)"
| "pop_loop item (Some a # rest) = pop_loop (Some a) rest"

definition pop_group :: "listener \<Rightarrow> error + (addr \<times> listener)" where
  "pop_group st =
     (if \<not> length (sequences st) > 1 then Inl (AssertionError ''Bad sequence stack'')
      else case pop_loop (hd (sequences st)) (tl (sequences st)) of
             Inl e \<Rightarrow> Inl e
           | Inr (item, rest) \<Rightarrow>
               (case item of
                  None \<Rightarrow> Inl (AssertionError ''Invalid last sequence'')
                | Some a \<Rightarrow> Inr (a, st\<lparr>sequences := tl rest\<rparr>)))"

subsection \<open>The word classifier\<close>

text \<open>
  \<open>str.strip()\<close>: the characters of a Python string are taken as single \<open>char\<close>s, and
  the whitespace characters are those below 256 for which \<open>str.isspace\<close> holds.
\<close>

definition whitespace :: "char \<Rightarrow> bool" where
  "whitespace c = (of_char c \<in> {9, 10, 11, 12, 13, 28, 29, 30, 31, 32, 133, 160 :: nat})"

definition strip :: "string \<Rightarrow> string" where
  "strip s = rev (dropWhile whitespace (rev (dropWhile whitespace s)))"

text \<open>
  Modelled from the spec: \<open>remove_escapes\<close> of \<open>expression.py\<close>, which is not among the
  sources. Each backslash-prefixed character is replaced by that literal character, and
  nothing else changes.
\<close>

fun remove_escapes :: "string \<Rightarrow> string" where
  "remove_escapes [] = []"
| "remove_escapes [c] = [c]"
| "remove_escapes (c # d # rest) =
     (if c = CHR 0x5C then d # remove_escapes rest else c # remove_escapes (d # rest))"

text \<open>
  Modelled from the spec: the quote characters of \<open>remove_quotes\<close>. The spec names
  none; the model takes the double quote and the single quote.
\<close>

definition quote :: "char \<Rightarrow> bool" where
  "quote c = (c = CHR 0x22 \<or> c = CHR 0x27)"

text \<open>
  Modelled from the spec: \<open>remove_quotes\<close> of \<open>expression.py\<close>, which is not among the
  sources. If the text is fully wrapped in a single matching pair of quote characters,
  exactly that outer pair is removed.
\<close>

definition remove_quotes :: "string \<Rightarrow> string" where
  "remove_quotes s =
     (if length s \<ge> 2 \<and> quote (hd s) \<and> last s = hd s then butlast (tl s) else s)"

text \<open>Modelled from the spec: the digits of the two patterns of \<open>expression.py\<close>.\<close>

definition digit :: "char \<Rightarrow> bool" where
  "digit c = (c \<in> set ''0123456789'')"

text \<open>
  Modelled from the spec: \<open>NUMBER_PATTERN\<close> of \<open>expression.py\<close>, which is not among the
  sources: an optional sign, then digits only. The result is the text of group 1 of the
  match, \<open>None\<close> when the pattern does not match.
\<close>

definition NUMBER_PATTERN :: "string \<Rightarrow> string option" where
  "NUMBER_PATTERN s =
     (let body = (case s of [] \<Rightarrow> [] | c # r \<Rightarrow> if c = CHR ''-'' \<or> c = CHR ''+'' then r else s)
      in if body \<noteq> [] \<and> list_all digit body then Some s else None)"

text \<open>
  Modelled from the spec: \<open>NUMBER_RANGE_PATTERN\<close> of \<open>expression.py\<close>, which is not
  among the sources: \<open>lower..upper\<close> or \<open>lower..upper..step\<close>, digits with the
  two-character separator \<open>..\<close>, the step an optional trailing \<open>..step\<close> group. The
  result holds groups 1 and 2 and the group \<open>step\<close>, which is \<open>None\<close> when absent.
\<close>

definition NUMBER_RANGE_PATTERN :: "string \<Rightarrow> (string \<times> string \<times> string option) option" where
  "NUMBER_RANGE_PATTERN s =
     (let lower = takeWhile digit s; r1 = dropWhile digit s
      in if lower = [] \<or> take 2 r1 \<noteq> ''..'' then None
         else let r2 = drop 2 r1; upper = takeWhile digit r2; r3 = dropWhile digit r2
              in if upper = [] then None
                 else if r3 = [] then Some (lower, upper, None)
                 else if take 2 r3 \<noteq> ''..'' then None
                 else let step = drop 2 r3
                      in if step \<noteq> [] \<and> list_all digit step then Some (lower, upper, Some step)
                         else None)"

text \<open>Python's \<open>int\<close> on a text of an optional sign and decimal digits.\<close>

definition digits_value :: "string \<Rightarrow> int" where
  "digits_value s = foldl (\<lambda>n c. 10 * n + (int (of_char c) - 48)) 0 s"

definition int_of :: "string \<Rightarrow> int" where
  "int_of s =
     (case s of
        [] \<Rightarrow> 0
      | c # r \<Rightarrow> if c = CHR ''-'' then - digits_value r
                else if c = CHR ''+'' then digits_value r
                else digits_value s)"

text \<open>
  The body of \<open>enterWord\<close> up to the item it builds; the argument is
  \<open>ctx.STRING().getText()\<close>.
\<close>

definition word_item :: "string \<Rightarrow> expression" where
  "word_item raw =
     (let word_text = remove_quotes (remove_escapes (strip raw))
      in case NUMBER_PATTERN word_text of
           Some g1 \<Rightarrow> Number (int_of g1)
         | None \<Rightarrow>
             (case NUMBER_RANGE_PATTERN word_text of
                Some (g1, g2, step) \<Rightarrow>
                  (let step_str = (case step of None \<Rightarrow> ''1'' | Some s \<Rightarrow> if s = [] then ''1'' else s)
                   in NumberRange (int_of g1) (int_of g2) (int_of step_str))
              | None \<Rightarrow> Word word_text))"

subsection \<open>The handlers of the listener\<close>

definition enterSentence :: "listener \<Rightarrow> error + listener" where
  "enterSentence st =
     (let (s, h) = new_Sequence GROUP [] (heap st)
      in Inr (st\<lparr>sentence := Some s, sequences := [Some s], heap := h\<rparr>))"

definition exitSentence :: "listener \<Rightarrow> error + listener" where
  "exitSentence st =
     (case sentence st of
        None \<Rightarrow> Inl (AssertionError ''No sentence started'')
      | Some s \<Rightarrow> Inr (st\<lparr>sentences := sentences st @ [s], sentence := None, sequences := []\<rparr>))"

definition enterGroup :: "listener \<Rightarrow> error + listener" where
  "enterGroup st =
     (let (g, h) = new_Sequence GROUP [] (heap st)
      in Inr (st\<lparr>sequences := Some g # None # sequences st, heap := h\<rparr>))"

definition exitGroup :: "listener \<Rightarrow> error + listener" where
  "exitGroup st =
     (case pop_group st of
        Inl e \<Rightarrow> Inl e
      | Inr (popped, st1) \<Rightarrow>
          (case last_sequence st1 of
             Inl e \<Rightarrow> Inl e
           | Inr target \<Rightarrow> Inr (st1\<lparr>heap := append_item target (Ref popped) (heap st1)\<rparr>)))"

definition enterOptional :: "listener \<Rightarrow> error + listener" where
  "enterOptional st =
     (let (g, h) = new_Sequence GROUP [] (heap st)
      in Inr (st\<lparr>sequences := Some g # None # sequences st, heap := h\<rparr>))"

text \<open>\<open>Word.empty()\<close> is the empty word \<open>""\<close> of the comment in \<open>exitOptional\<close>.\<close>

definition exitOptional :: "listener \<Rightarrow> error + listener" where
  "exitOptional st =
     (case pop_group st of
        Inl e \<Rightarrow> Inl e
      | Inr (optional, st1) \<Rightarrow>
          (let h = heap st1;
               h1 = (if type (h ! optional) \<noteq> ALTERNATIVE
                     then set_type optional ALTERNATIVE
                            (if length (items (h ! optional)) > 1
                             then (let (w, hw) = new_Sequence GROUP (items (h ! optional)) h
                                   in set_items optional [Ref w] hw)
                             else h)
                     else h);
               h2 = append_item optional (Leaf (Word '''')) h1
           in case last_sequence st1 of
                Inl e \<Rightarrow> Inl e
              | Inr target \<Rightarrow> Inr (st1\<lparr>heap := append_item target (Ref optional) h2\<rparr>)))"

definition enterAlt :: "listener \<Rightarrow> error + listener" where
  "enterAlt st =
     (case last_parent_sequence st of
        Inl e \<Rightarrow> Inl e
      | Inr s \<Rightarrow>
          (let h = heap st;
               h1 = (if type (h ! s) \<noteq> ALTERNATIVE
                     then set_type s ALTERNATIVE
                            (if items (h ! s) \<noteq> []
                             then (let (w, hw) = new_Sequence GROUP (items (h ! s)) h
                                   in set_items s [Ref w] hw)
                             else h)
                     else h);
               (next_group, h2) = new_Sequence GROUP [] h1
           in Inr (st\<lparr>sequences := Some next_group # sequences st,
                       heap := append_item s (Ref next_group) h2\<rparr>)))"

definition append_leaf :: "expression \<Rightarrow> listener \<Rightarrow> error + listener" where
  "append_leaf e st =
     (case last_sequence st of
        Inl err \<Rightarrow> Inl err
      | Inr target \<Rightarrow> Inr (st\<lparr>heap := append_item target (Leaf e) (heap st)\<rparr>))"

definition enterRule :: "string \<Rightarrow> listener \<Rightarrow> error + listener" where
  "enterRule rule_name st = append_leaf (RuleReference rule_name) st"

definition enterList :: "string \<Rightarrow> listener \<Rightarrow> error + listener" where
  "enterList list_name st = append_leaf (ListReference list_name) st"

definition enterWord :: "string \<Rightarrow> listener \<Rightarrow> error + listener" where
  "enterWord raw st = append_leaf (word_item raw) st"

subsection \<open>The walk over the parse tree\<close>

text \<open>
  The calls that \<open>ParseTreeWalker.walk\<close> makes on the listener. Only the methods that
  \<open>HassILExpressionListener\<close> overrides are events; every other callback is the empty
  method of the base listener. \<open>EnterRule\<close> and \<open>EnterList\<close> carry
  \<open>ctx.rule_name().STRING().getText()\<close> and \<open>ctx.list_name().STRING().getText()\<close>,
  \<open>EnterWord\<close> carries \<open>ctx.STRING().getText()\<close>.
\<close>

datatype event =
    EnterSentence | ExitSentence
  | EnterGroup | ExitGroup
  | EnterOptional | ExitOptional
  | EnterAlt
  | EnterRule string | EnterList string | EnterWord string

fun dispatch :: "event \<Rightarrow> listener \<Rightarrow> error + listener" where
  "dispatch EnterSentence st = enterSentence st"
| "dispatch ExitSentence st = exitSentence st"
| "dispatch EnterGroup st = enterGroup st"
| "dispatch ExitGroup st = exitGroup st"
| "dispatch EnterOptional st = enterOptional st"
| "dispatch ExitOptional st = exitOptional st"
| "dispatch EnterAlt st = enterAlt st"
| "dispatch (EnterRule n) st = enterRule n st"
| "dispatch (EnterList n) st = enterList n st"
| "dispatch (EnterWord w) st = enterWord w st"

text \<open>An exception raised by a handler ends the walk.\<close>

fun walk :: "event list \<Rightarrow> listener \<Rightarrow> error + listener" where
  "walk [] st = Inr st"
| "walk (e # es) st = (case dispatch e st of Inl err \<Rightarrow> Inl err | Inr st' \<Rightarrow> walk es st')"

text \<open>
  Modelled from the spec: the parse tree of \<open>HassILGrammarParser\<close>, which is not among
  the sources. For valid input the front end reports a balanced stream of events:
  sentence start and end, group start and end, optional start and end, the alternation
  separator inside a group or optional, rule references, list references and word
  tokens. A group or optional holds the items before its first separator and, for each
  separator, the items that follow it; a sentence is a list of items, a document a list
  of sentences.
\<close>

datatype node =
    NWord string
  | NRule string
  | NList string
  | NGroup "node list" "node list list"
  | NOptional "node list" "node list list"

text \<open>
  Modelled from the spec: the events that the walk reports for a node, in document
  order. The grammar is not among the sources; the separator event comes after the items
  of the branch before it and before the items of the branch after it, as the comment
  of \<open>enterAlt\<close> says (the group or optional may already contain some items).
\<close>

primrec node_events :: "node \<Rightarrow> event list" where
  "node_events (NWord w) = [EnterWord w]"
| "node_events (NRule n) = [EnterRule n]"
| "node_events (NList n) = [EnterList n]"
| "node_events (NGroup b bs) =
     EnterGroup # concat (map node_events b)
       @ concat (map (\<lambda>es. EnterAlt # concat es) (map (map node_events) bs)) @ [ExitGroup]"
| "node_events (NOptional b bs) =
     EnterOptional # concat (map node_events b)
       @ concat (map (\<lambda>es. EnterAlt # concat es) (map (map node_events) bs)) @ [ExitOptional]"

definition sentence_events :: "node list \<Rightarrow> event list" where
  "sentence_events ns = EnterSentence # concat (map node_events ns) @ [ExitSentence]"

definition document_events :: "node list list \<Rightarrow> event list" where
  "document_events d = concat (map sentence_events d)"

subsection \<open>The entry point\<close>

definition newline :: char where
  "newline = CHR 0x0A"

text \<open>\<open>"\n".join(sentences)\<close>\<close>

fun join :: "string list \<Rightarrow> string" where
  "join [] = []"
| "join [l] = l"
| "join (l # l' # ls) = l @ newline # join (l' # ls)"

text \<open>
  \<open>parse_sentences\<close>. The lexer and parser are not among the sources, so the function
  from the text to the parse tree of \<open>parser.document()\<close> is the parameter
  \<open>document\<close>.
\<close>

definition parse_sentences ::
    "(string \<Rightarrow> node list list) \<Rightarrow> string list \<Rightarrow> listener \<Rightarrow> error + listener" where
  "parse_sentences document lines st =
     (let text = join lines @ [newline]
      in if strip text \<noteq> [] then walk (document_events (document text)) st else Inr st)"

subsection \<open>Reading a tree out of the store\<close>

text \<open>
  The expression an item stands for, followed to depth \<open>n\<close>; \<open>None\<close> when the depth
  does not suffice or a reference leaves the store.
\<close>

fun tree_of :: "nat \<Rightarrow> sequence list \<Rightarrow> item \<Rightarrow> expression option" where
  "tree_of n h (Leaf e) = Some e"
| "tree_of 0 h (Ref a) = None"
| "tree_of (Suc n) h (Ref a) =
     (if a < length h
      then map_option (Sequence (type (h ! a))) (those (map (tree_of n h) (items (h ! a))))
      else None)"

text \<open>The compiled sentences: the trees of \<open>listener.sentences\<close>.\<close>

definition sentence_trees :: "listener \<Rightarrow> expression list option" where
  "sentence_trees st =
     those (map (\<lambda>a. tree_of (length (heap st)) (heap st) (Ref a)) (sentences st))"

section \<open>The tree built for a parse tree\<close>

text \<open>
  The tree that the walk over a node leaves in the store, written as a function of the
  node. For a group or optional, \<open>first\<close> are the trees of the items before the first
  separator and \<open>rest\<close> the trees of the items after each separator. Lemma
  \<open>sentence_trees_document\<close> below proves that the listener builds exactly these trees.
\<close>

definition alternatives :: "expression list \<Rightarrow> expression list list \<Rightarrow> expression list" where
  "alternatives first rest =
     (if first = [] then [] else [Sequence GROUP first]) @ map (Sequence GROUP) rest"

definition group_tree :: "expression list \<Rightarrow> expression list list \<Rightarrow> expression" where
  "group_tree first rest =
     (if rest = [] then Sequence GROUP first else Sequence ALTERNATIVE (alternatives first rest))"

definition optional_tree :: "expression list \<Rightarrow> expression list list \<Rightarrow> expression" where
  "optional_tree first rest =
     Sequence ALTERNATIVE
       ((if rest = [] then (if length first > 1 then [Sequence GROUP first] else first)
         else alternatives first rest) @ [Word ''''])"

primrec node_tree :: "node \<Rightarrow> expression" where
  "node_tree (NWord w) = word_item w"
| "node_tree (NRule n) = RuleReference n"
| "node_tree (NList n) = ListReference n"
| "node_tree (NGroup b bs) = group_tree (map node_tree b) (map (map node_tree) bs)"
| "node_tree (NOptional b bs) = optional_tree (map node_tree b) (map (map node_tree) bs)"

definition sentence_tree :: "node list \<Rightarrow> expression" where
  "sentence_tree ns = Sequence GROUP (map node_tree ns)"

text \<open>The nodes of a parse tree, and the expressions of a tree.\<close>

primrec spans :: "node \<Rightarrow> node list" where
  "spans (NWord w) = [NWord w]"
| "spans (NRule n) = [NRule n]"
| "spans (NList n) = [NList n]"
| "spans (NGroup b bs) =
     NGroup b bs # concat (map spans b) @ concat (map concat (map (map spans) bs))"
| "spans (NOptional b bs) =
     NOptional b bs # concat (map spans b) @ concat (map concat (map (map spans) bs))"

primrec subtrees :: "expression \<Rightarrow> expression list" where
  "subtrees (Word w) = [Word w]"
| "subtrees (Number n) = [Number n]"
| "subtrees (NumberRange l u s) = [NumberRange l u s]"
| "subtrees (ListReference n) = [ListReference n]"
| "subtrees (RuleReference n) = [RuleReference n]"
| "subtrees (Sequence ty xs) = Sequence ty xs # concat (map subtrees xs)"

section \<open>The store during a walk\<close>

text \<open>
  \<open>rep_in lo hi h x t\<close>: in the store \<open>h\<close> the item \<open>x\<close> stands for the tree \<open>t\<close>,
  and every object met on the way has its address in \<open>[lo, hi)\<close>. The items of an
  object at \<open>a\<close> lie in a part of the range that does not hold \<open>a\<close>, so no object is
  reached from itself.
\<close>

inductive rep_in :: "nat \<Rightarrow> nat \<Rightarrow> sequence list \<Rightarrow> item \<Rightarrow> expression \<Rightarrow> bool" where
  rep_Leaf: "rep_in lo hi h (Leaf e) e"
| rep_Ref: "lo \<le> a \<Longrightarrow> a < hi \<Longrightarrow> a < length h \<Longrightarrow> lo \<le> lo' \<Longrightarrow> hi' \<le> hi \<Longrightarrow> hi' \<le> a \<or> a < lo' \<Longrightarrow>
     list_all2 (rep_in lo' hi' h) (items (h ! a)) ts \<Longrightarrow>
     rep_in lo hi h (Ref a) (Sequence (type (h ! a)) ts)"

text \<open>The stores \<open>h\<close> and \<open>h'\<close> hold the same objects at the addresses in \<open>[lo, hi)\<close>.\<close>

definition same_on :: "nat \<Rightarrow> nat \<Rightarrow> sequence list \<Rightarrow> sequence list \<Rightarrow> bool" where
  "same_on lo hi h h' \<longleftrightarrow>
     (\<forall>i. lo \<le> i \<and> i < hi \<and> i < length h \<longrightarrow> i < length h' \<and> h' ! i = h ! i)"

text \<open>
  From \<open>st\<close> to \<open>st'\<close> the object at \<open>a\<close> has gained the items \<open>xs\<close>, no other object
  of \<open>st\<close> has changed, and the finished sentences are the same.
\<close>

definition grown :: "listener \<Rightarrow> addr \<Rightarrow> item list \<Rightarrow> listener \<Rightarrow> bool" where
  "grown st a xs st' \<longleftrightarrow>
     sentences st' = sentences st \<and> sentence st' = sentence st \<and>
     length (heap st) \<le> length (heap st') \<and>
     (\<forall>i < length (heap st). heap st' ! i =
        (if i = a then (heap st ! a)\<lparr>items := items (heap st ! a) @ xs\<rparr> else heap st ! i))"

text \<open>No object of \<open>st\<close> has changed in \<open>st'\<close>.\<close>

definition kept :: "listener \<Rightarrow> listener \<Rightarrow> bool" where
  "kept st st' \<longleftrightarrow> length (heap st) \<le> length (heap st') \<and>
     (\<forall>i < length (heap st). heap st' ! i = heap st ! i)"

text \<open>
  The walk over a node, started with a sequence \<open>a\<close> on top of the stack, ends with the
  same stack and has appended to \<open>a\<close> one item, which stands for the tree of the node
  and is made of objects allocated during the walk.
\<close>

definition node_ok :: "node \<Rightarrow> bool" where
  "node_ok t \<longleftrightarrow>
     (\<forall>st a stk. sequences st = Some a # stk \<and> a < length (heap st) \<longrightarrow>
        (\<exists>st' x. walk (node_events t) st = Inr st' \<and> sequences st' = sequences st \<and>
                 grown st a [x] st' \<and>
                 rep_in (length (heap st)) (length (heap st')) (heap st') x (node_tree t)))"

text \<open>
  What the first separator of a scope does to the scope's object \<open>g\<close> before the new
  group is made: the items move into a new group if there are any, and the type becomes
  \<open>ALTERNATIVE\<close>.
\<close>

definition convert :: "addr \<Rightarrow> sequence list \<Rightarrow> sequence list" where
  "convert g h =
     (if items (h ! g) = [] then h[g := \<lparr>type = ALTERNATIVE, items = []\<rparr>]
      else (h @ [\<lparr>type = GROUP, items = items (h ! g)\<rparr>])
             [g := \<lparr>type = ALTERNATIVE, items = [Ref (length h)]\<rparr>])"

text \<open>The nodes whose tree is an \<open>ALTERNATIVE\<close>: an optional, and a group with a separator.\<close>

text \<open>
  What lies on the stack below the sequences of the innermost scope: a marker, or nothing
  when no group or optional is open.
\<close>

definition bottom :: "addr option list \<Rightarrow> bool" where
  "bottom stk = (case stk of [] \<Rightarrow> True | x # rest \<Rightarrow> x = None)"

definition scope :: "node \<Rightarrow> bool" where
  "scope s = (case s of NGroup b bs \<Rightarrow> bs \<noteq> [] | NOptional b bs \<Rightarrow> True | _ \<Rightarrow> False)"

section \<open>Lemmas\<close>

lemma rep_in_widen:
  assumes "rep_in lo hi h x t" "lo' \<le> lo" "hi \<le> hi'"
  shows "rep_in lo' hi' h x t"
  using assms(1)
proof (cases rule: rep_in.cases)
  case (rep_Leaf)
  then show ?thesis by (simp add: rep_in.rep_Leaf)
next
  case (rep_Ref a l u ts)
  have "rep_in lo' hi' h (Ref a) (Sequence (type (h ! a)) ts)"
    using rep_Ref assms(2,3) by (intro rep_in.rep_Ref[where lo'=l and hi'=u]) auto
  then show ?thesis using rep_Ref by simp
qed

lemma same_on_sub: "same_on lo hi h h' \<Longrightarrow> lo \<le> lo' \<Longrightarrow> hi' \<le> hi \<Longrightarrow> same_on lo' hi' h h'"
  by (auto simp: same_on_def)

lemma rep_in_frame:
  "rep_in lo hi h x t \<Longrightarrow> same_on lo hi h h' \<Longrightarrow> rep_in lo hi h' x t"
proof (induction rule: rep_in.induct)
  case (rep_Leaf lo hi h e)
  show ?case by (rule rep_in.rep_Leaf)
next
  case (rep_Ref lo a hi h lo' hi' ts)
  have eq: "a < length h' \<and> h' ! a = h ! a"
    using rep_Ref.prems rep_Ref.hyps by (auto simp: same_on_def)
  have sub: "same_on lo' hi' h h'"
    using rep_Ref.prems rep_Ref.hyps by (auto intro: same_on_sub)
  have "list_all2 (rep_in lo' hi' h') (items (h ! a)) ts"
    using rep_Ref.IH sub by (auto elim!: list_all2_mono)
  then show ?case
    using rep_in.rep_Ref[of lo a hi h' lo' hi' ts] rep_Ref.hyps eq by simp
qed

lemma tree_of_rep_in:
  "rep_in lo hi h x t \<Longrightarrow> hi - lo \<le> n \<Longrightarrow> tree_of n h x = Some t"
proof (induction arbitrary: n rule: rep_in.induct)
  case (rep_Leaf lo hi h e)
  show ?case by simp
next
  case (rep_Ref lo a hi h lo' hi' ts)
  from rep_Ref.hyps rep_Ref.prems obtain m where n: "n = Suc m" and m: "hi' - lo' \<le> m"
    by (cases n) auto
  have "list_all2 (\<lambda>x t. tree_of m h x = Some t) (items (h ! a)) ts"
    using rep_Ref.IH m by (auto elim!: list_all2_mono)
  then have "map (tree_of m h) (items (h ! a)) = map Some ts"
    by (induction rule: list_all2_induct) auto
  moreover have "those (map Some ts) = Some ts"
    by (induction ts) auto
  ultimately show ?case using rep_Ref.hyps n by simp
qed

lemma walk_append:
  "walk (es @ es') st = (case walk es st of Inl e \<Rightarrow> Inl e | Inr st' \<Rightarrow> walk es' st')"
  by (induction es arbitrary: st) (auto split: sum.splits)

lemma grown_refl: "grown st a [] st"
  by (simp add: grown_def)

lemma grown_trans:
  "grown st a xs st1 \<Longrightarrow> grown st1 a ys st2 \<Longrightarrow> grown st a (xs @ ys) st2"
  by (auto simp: grown_def)

lemma grown_same_on:
  "grown st a xs st' \<Longrightarrow> a < lo \<Longrightarrow> same_on lo hi (heap st) (heap st')"
  by (auto simp: grown_def same_on_def)

lemma grown_length: "grown st a xs st' \<Longrightarrow> length (heap st) \<le> length (heap st')"
  by (simp add: grown_def)

lemma append_leaf_top:
  "sequences st = Some a # stk \<Longrightarrow> a < length (heap st) \<Longrightarrow>
   \<exists>st'. append_leaf e st = Inr st' \<and> sequences st' = sequences st \<and>
         grown st a [Leaf e] st' \<and> length (heap st') = length (heap st)"
  by (simp add: append_leaf_def last_sequence_def append_item_def grown_def)

lemma items_ok:
  "\<forall>t \<in> set ts. node_ok t \<Longrightarrow> sequences st = Some a # stk \<Longrightarrow> a < length (heap st) \<Longrightarrow>
   \<exists>st' xs. walk (concat (map node_events ts)) st = Inr st' \<and> sequences st' = sequences st \<and>
            grown st a xs st' \<and>
            list_all2 (rep_in (length (heap st)) (length (heap st')) (heap st')) xs (map node_tree ts)"
proof (induction ts arbitrary: st)
  case Nil
  show ?case using grown_refl by auto
next
  case (Cons t ts)
  let ?n0 = "length (heap st)"
  from Cons.prems obtain st1 x where
    w1: "walk (node_events t) st = Inr st1" and q1: "sequences st1 = sequences st" and
    a1: "grown st a [x] st1" and
    r1: "rep_in ?n0 (length (heap st1)) (heap st1) x (node_tree t)"
    unfolding node_ok_def by (metis list.set_intros(1))
  let ?n1 = "length (heap st1)"
  have s1: "sequences st1 = Some a # stk" "a < ?n1"
    using a1 q1 Cons.prems by (auto simp: grown_def)
  from Cons.IH[OF _ s1] Cons.prems(1) obtain st2 xs where
    w2: "walk (concat (map node_events ts)) st1 = Inr st2" and q2: "sequences st2 = sequences st1" and
    a2: "grown st1 a xs st2" and
    r2: "list_all2 (rep_in ?n1 (length (heap st2)) (heap st2)) xs (map node_tree ts)"
    by auto
  let ?n2 = "length (heap st2)"
  have le: "?n0 \<le> ?n1" "?n1 \<le> ?n2" using a1 a2 by (auto simp: grown_def)
  have "rep_in ?n0 ?n1 (heap st2) x (node_tree t)"
    using r1 grown_same_on[OF a2] Cons.prems(3) by (auto intro: rep_in_frame)
  then have x: "rep_in ?n0 ?n2 (heap st2) x (node_tree t)"
    using le by (auto intro: rep_in_widen)
  have xs: "list_all2 (rep_in ?n0 ?n2 (heap st2)) xs (map node_tree ts)"
    using r2 le by (auto elim!: list_all2_mono intro: rep_in_widen)
  have "walk (concat (map node_events (t # ts))) st = Inr st2"
    using w1 w2 by (simp add: walk_append)
  moreover have "grown st a (x # xs) st2"
    using grown_trans[OF a1 a2] by simp
  ultimately show ?case using x xs q1 q2 by (intro exI[of _ st2] exI[of _ "x # xs"]) simp
qed

lemma bottom_marker: "bottom (None # stk)"
  by (simp add: bottom_def)

lemma bottom_Nil: "bottom []"
  by (simp add: bottom_def)

lemma parent_scan_scope:
  "bottom below \<Longrightarrow> parent_scan (map Some cs @ below) p = (if cs = [] then p else Some (last cs))"
  by (induction cs arbitrary: p) (auto simp: bottom_def split: list.splits)

lemma pop_loop_scope:
  "pop_loop x (map Some cs @ None # stk) = Inr (if cs = [] then x else Some (last cs), None # stk)"
  by (induction cs arbitrary: x) auto

lemma last_parent_sequence_scope:
  "sequences st = map Some cs @ below \<Longrightarrow> cs \<noteq> [] \<Longrightarrow> bottom below \<Longrightarrow>
   last_parent_sequence st = Inr (last cs)"
  by (simp add: last_parent_sequence_def parent_scan_scope)

lemma pop_group_scope:
  assumes "sequences st = map Some cs @ None # stk" "cs \<noteq> []"
  shows "pop_group st = Inr (last cs, st\<lparr>sequences := stk\<rparr>)"
proof -
  obtain c cs' where cs: "cs = c # cs'" using assms(2) by (cases cs) auto
  have "pop_loop (Some c) (map Some cs' @ None # stk) = Inr (Some (last cs), None # stk)"
    by (simp add: pop_loop_scope cs)
  then show ?thesis using assms(1) by (simp add: pop_group_def cs)
qed

lemma enterAlt_alternative:
  assumes "sequences st = map Some cs @ below" "cs \<noteq> []"
      and "last cs < length (heap st)" "type (heap st ! last cs) = ALTERNATIVE"
      and "bottom below"
  shows "enterAlt st =
           Inr (st\<lparr>sequences := Some (length (heap st)) # sequences st,
                   heap := (heap st @ [\<lparr>type = GROUP, items = []\<rparr>])
                             [last cs := (heap st ! last cs)
                                \<lparr>items := items (heap st ! last cs) @ [Ref (length (heap st))]\<rparr>]\<rparr>)"
  using assms
  by (simp add: enterAlt_def last_parent_sequence_scope new_Sequence_def append_item_def
      nth_append Let_def)

lemma enterAlt_group_items:
  assumes "sequences st = map Some cs @ below" "cs \<noteq> []"
      and "last cs < length (heap st)" "type (heap st ! last cs) = GROUP"
      and "items (heap st ! last cs) \<noteq> []"
      and "bottom below"
  shows "enterAlt st =
           Inr (st\<lparr>sequences := Some (Suc (length (heap st))) # sequences st,
                   heap := (heap st @ [\<lparr>type = GROUP, items = items (heap st ! last cs)\<rparr>,
                                       \<lparr>type = GROUP, items = []\<rparr>])
                             [last cs := \<lparr>type = ALTERNATIVE,
                                items = [Ref (length (heap st)), Ref (Suc (length (heap st)))]\<rparr>]\<rparr>)"
  using assms
  by (cases "heap st ! last cs")
     (simp add: enterAlt_def last_parent_sequence_scope new_Sequence_def append_item_def
      set_items_def set_type_def nth_append Let_def list_update_append)

lemma enterAlt_group_empty:
  assumes "sequences st = map Some cs @ below" "cs \<noteq> []"
      and "last cs < length (heap st)" "type (heap st ! last cs) = GROUP"
      and "items (heap st ! last cs) = []"
      and "bottom below"
  shows "enterAlt st =
           Inr (st\<lparr>sequences := Some (length (heap st)) # sequences st,
                   heap := (heap st @ [\<lparr>type = GROUP, items = []\<rparr>])
                             [last cs := \<lparr>type = ALTERNATIVE, items = [Ref (length (heap st))]\<rparr>]\<rparr>)"
  using assms
  by (cases "heap st ! last cs")
     (simp add: enterAlt_def last_parent_sequence_scope new_Sequence_def append_item_def
      set_items_def set_type_def nth_append Let_def list_update_append)

lemma alts_ok:
  assumes "\<forall>b \<in> set bs. \<forall>t \<in> set b. node_ok t"
      and "sequences st = map Some cs @ below" "cs \<noteq> []" "last cs = g"
      and "g < length (heap st)" "type (heap st ! g) = ALTERNATIVE"
      and "bottom below"
  shows "\<exists>st' cs' news.
           walk (concat (map (\<lambda>b. EnterAlt # concat (map node_events b)) bs)) st = Inr st' \<and>
           sequences st' = map Some (cs' @ cs) @ below \<and>
           grown st g news st' \<and>
           list_all2 (rep_in (length (heap st)) (length (heap st')) (heap st')) news
             (map (Sequence GROUP) (map (map node_tree) bs))"
  using assms
proof (induction bs arbitrary: st cs)
  case Nil
  show ?case using grown_refl[of st g] Nil.prems by (intro exI[of _ st] exI[of _ "[]"]) auto
next
  case (Cons b bs)
  let ?h = "heap st"
  let ?n0 = "length ?h"
  define st1 where "st1 = st\<lparr>sequences := Some ?n0 # sequences st,
     heap := (?h @ [\<lparr>type = GROUP, items = []\<rparr>])
               [g := (?h ! g)\<lparr>items := items (?h ! g) @ [Ref ?n0]\<rparr>]\<rparr>"
  have e1: "enterAlt st = Inr st1"
    using enterAlt_alternative[of st cs below] Cons.prems by (simp add: st1_def)
  have g1: "grown st g [Ref ?n0] st1"
    using Cons.prems by (auto simp: grown_def st1_def nth_append)
  have q1: "sequences st1 = Some ?n0 # map Some cs @ below" "?n0 < length (heap st1)"
    and l1: "length (heap st1) = Suc ?n0"
    and new1: "heap st1 ! ?n0 = \<lparr>type = GROUP, items = []\<rparr>"
    using Cons.prems by (auto simp: st1_def)
  have okb: "\<forall>t \<in> set b. node_ok t" and okbs: "\<forall>b \<in> set bs. \<forall>t \<in> set b. node_ok t"
    using Cons.prems(1) by auto
  from items_ok[OF okb q1] obtain st2 xs where
    w2: "walk (concat (map node_events b)) st1 = Inr st2" and q2: "sequences st2 = sequences st1" and
    g2: "grown st1 ?n0 xs st2" and
    r2: "list_all2 (rep_in (Suc ?n0) (length (heap st2)) (heap st2)) xs (map node_tree b)"
    unfolding l1 by blast
  let ?n2 = "length (heap st2)"
  have l2: "Suc ?n0 \<le> ?n2" using g2 l1 by (auto simp: grown_def)
  have at_g2: "heap st2 ! g = (?h ! g)\<lparr>items := items (?h ! g) @ [Ref ?n0]\<rparr>"
    using g2 g1 Cons.prems(5) l1 by (auto simp: grown_def)
  have at_n2: "heap st2 ! ?n0 = \<lparr>type = GROUP, items = xs\<rparr>"
    using g2 l1 new1 by (auto simp: grown_def)
  have pre2: "sequences st2 = map Some (?n0 # cs) @ below" "?n0 # cs \<noteq> []" "last (?n0 # cs) = g"
    "g < length (heap st2)" "type (heap st2 ! g) = ALTERNATIVE"
    using q2 q1 Cons.prems l2 at_g2 by auto
  from Cons.IH[OF okbs pre2 Cons.prems(7)] obtain st3 cs' news where
    w3: "walk (concat (map (\<lambda>b. EnterAlt # concat (map node_events b)) bs)) st2 = Inr st3" and
    q3: "sequences st3 = map Some (cs' @ ?n0 # cs) @ below" and
    g3: "grown st2 g news st3" and
    r3: "list_all2 (rep_in ?n2 (length (heap st3)) (heap st3)) news
           (map (Sequence GROUP) (map (map node_tree) bs))"
    by blast
  let ?n3 = "length (heap st3)"
  have l3: "?n2 \<le> ?n3" using g3 by (auto simp: grown_def)
  have w: "walk (concat (map (\<lambda>b. EnterAlt # concat (map node_events b)) (b # bs))) st = Inr st3"
    using e1 w2 w3 by (simp add: walk_append)
  have q: "sequences st3 = map Some ((cs' @ [?n0]) @ cs) @ below"
    using q3 by simp
  have g: "grown st g (Ref ?n0 # news) st3"
    using g1 g2 g3 Cons.prems(5) l1 unfolding grown_def by auto
  have at_n3: "heap st3 ! ?n0 = \<lparr>type = GROUP, items = xs\<rparr>"
    using g3 at_n2 l2 Cons.prems(5) by (auto simp: grown_def)
  have "list_all2 (rep_in (Suc ?n0) ?n2 (heap st3)) xs (map node_tree b)"
    using r2 grown_same_on[OF g3, of "Suc ?n0" ?n2] Cons.prems(5)
    by (auto elim!: list_all2_mono intro: rep_in_frame)
  then have "rep_in ?n0 ?n3 (heap st3) (Ref ?n0) (Sequence (type (heap st3 ! ?n0)) (map node_tree b))"
    using l2 l3 at_n3 by (intro rep_in.rep_Ref[where lo'="Suc ?n0" and hi'="?n2"]) auto
  then have x: "rep_in ?n0 ?n3 (heap st3) (Ref ?n0) (Sequence GROUP (map node_tree b))"
    using at_n3 by simp
  have "list_all2 (rep_in ?n0 ?n3 (heap st3)) news (map (Sequence GROUP) (map (map node_tree) bs))"
    using r3 l2 by (auto elim!: list_all2_mono intro: rep_in_widen)
  with x have r: "list_all2 (rep_in ?n0 ?n3 (heap st3)) (Ref ?n0 # news)
      (map (Sequence GROUP) (map (map node_tree) (b # bs)))"
    by simp
  show ?case using w q g r by blast
qed

lemma enterAlt_convert:
  assumes "sequences st = map Some cs @ below" "cs \<noteq> []"
      and "last cs < length (heap st)" "type (heap st ! last cs) = GROUP"
      and "bottom below"
  shows "enterAlt st = enterAlt (st\<lparr>heap := convert (last cs) (heap st)\<rparr>)"
proof (cases "items (heap st ! last cs) = []")
  case True
  let ?st' = "st\<lparr>heap := convert (last cs) (heap st)\<rparr>"
  have "enterAlt ?st' = Inr (?st'\<lparr>sequences := Some (length (heap ?st')) # sequences ?st',
                   heap := (heap ?st' @ [\<lparr>type = GROUP, items = []\<rparr>])
                             [last cs := (heap ?st' ! last cs)
                                \<lparr>items := items (heap ?st' ! last cs) @ [Ref (length (heap ?st'))]\<rparr>]\<rparr>)"
    using assms True by (intro enterAlt_alternative[of ?st' cs below]) (auto simp: convert_def)
  then show ?thesis
    using enterAlt_group_empty[OF assms(1-4) True assms(5)] assms True
    by (simp add: convert_def list_update_append)
next
  case False
  let ?st' = "st\<lparr>heap := convert (last cs) (heap st)\<rparr>"
  have "enterAlt ?st' = Inr (?st'\<lparr>sequences := Some (length (heap ?st')) # sequences ?st',
                   heap := (heap ?st' @ [\<lparr>type = GROUP, items = []\<rparr>])
                             [last cs := (heap ?st' ! last cs)
                                \<lparr>items := items (heap ?st' ! last cs) @ [Ref (length (heap ?st'))]\<rparr>]\<rparr>)"
    using assms False by (intro enterAlt_alternative[of ?st' cs below]) (auto simp: convert_def nth_append)
  then show ?thesis
    using enterAlt_group_items[OF assms(1-4) False assms(5)] assms False
    by (simp add: convert_def list_update_append nth_append)
qed

lemma convert_other: "g < length h \<Longrightarrow> i < length h \<Longrightarrow> i \<noteq> g \<Longrightarrow> convert g h ! i = h ! i"
  by (simp add: convert_def nth_append)

lemma convert_at:
  "g < length h \<Longrightarrow> convert g h ! g =
     \<lparr>type = ALTERNATIVE, items = (if items (h ! g) = [] then [] else [Ref (length h)])\<rparr>"
  by (simp add: convert_def)

lemma convert_length:
  "length (convert g h) = (if items (h ! g) = [] then length h else Suc (length h))"
  by (simp add: convert_def)

lemma convert_wrapper:
  "g < length h \<Longrightarrow> items (h ! g) \<noteq> [] \<Longrightarrow>
   convert g h ! length h = \<lparr>type = GROUP, items = items (h ! g)\<rparr>"
  by (simp add: convert_def)

lemma scope_body:
  assumes okb: "\<forall>t \<in> set b. node_ok t" and okbs: "\<forall>b' \<in> set bs. \<forall>t \<in> set b'. node_ok t"
      and q: "sequences st = Some g # below" and l: "length (heap st) = Suc g"
      and new: "heap st ! g = \<lparr>type = GROUP, items = []\<rparr>"
      and bt: "bottom below"
  shows "\<exists>st' cs its.
      walk (concat (map node_events b)
            @ concat (map (\<lambda>b. EnterAlt # concat (map node_events b)) bs)) st = Inr st' \<and>
      sequences st' = map Some cs @ below \<and> cs \<noteq> [] \<and> last cs = g \<and>
      sentences st' = sentences st \<and> sentence st' = sentence st \<and>
      Suc g \<le> length (heap st') \<and> (\<forall>i<g. heap st' ! i = heap st ! i) \<and>
      heap st' ! g = \<lparr>type = (if bs = [] then GROUP else ALTERNATIVE), items = its\<rparr> \<and>
      list_all2 (rep_in (Suc g) (length (heap st')) (heap st')) its
        (if bs = [] then map node_tree b
         else alternatives (map node_tree b) (map (map node_tree) bs))"
proof -
  have "g < length (heap st)" using l by simp
  from items_ok[OF okb q this] obtain st1 xs where
    w1: "walk (concat (map node_events b)) st = Inr st1" and q1: "sequences st1 = sequences st" and
    g1: "grown st g xs st1" and
    r1: "list_all2 (rep_in (Suc g) (length (heap st1)) (heap st1)) xs (map node_tree b)"
    unfolding l by blast
  let ?h1 = "heap st1"
  let ?n1 = "length ?h1"
  have l1: "Suc g \<le> ?n1" and same1: "\<forall>i<g. ?h1 ! i = heap st ! i"
    and at_g1: "?h1 ! g = \<lparr>type = GROUP, items = xs\<rparr>"
    and s1: "sentences st1 = sentences st" "sentence st1 = sentence st"
    using g1 l new by (auto simp: grown_def)
  show ?thesis
  proof (cases bs)
    case Nil
    have "walk (concat (map node_events b)
            @ concat (map (\<lambda>b. EnterAlt # concat (map node_events b)) bs)) st = Inr st1"
      using w1 Nil by simp
    moreover have "sequences st1 = map Some [g] @ below" using q1 q by simp
    ultimately show ?thesis
      using Nil l1 same1 at_g1 r1 s1
      by (intro exI[of _ st1] exI[of _ "[g]"] exI[of _ xs]) simp
  next
    case (Cons b2 bs')
    let ?st1' = "st1\<lparr>heap := convert g ?h1\<rparr>"
    let ?alts = "concat (map (\<lambda>b. EnterAlt # concat (map node_events b)) bs)"
    have q1': "sequences st1 = map Some [g] @ below" using q1 q by simp
    have "enterAlt st1 = enterAlt ?st1'"
      using enterAlt_convert[OF q1'] l1 at_g1 bt by simp
    then have weq: "walk ?alts st1 = walk ?alts ?st1'"
      using Cons by simp
    have pre: "sequences ?st1' = map Some [g] @ below" "[g] \<noteq> []" "last [g] = g"
      "g < length (heap ?st1')" "type (heap ?st1' ! g) = ALTERNATIVE"
      using q1' l1 by (auto simp: convert_length convert_at)
    from alts_ok[OF okbs pre bt] obtain st2 cs' news where
      w2: "walk ?alts ?st1' = Inr st2" and
      q2: "sequences st2 = map Some (cs' @ [g]) @ below" and
      g2: "grown ?st1' g news st2" and
      r2: "list_all2 (rep_in (length (heap ?st1')) (length (heap st2)) (heap st2)) news
             (map (Sequence GROUP) (map (map node_tree) bs))"
      by blast
    let ?h2 = "heap st2"
    let ?n2 = "length ?h2"
    let ?pre = "if xs = [] then [] else [Ref ?n1]"
    have lc: "?n1 \<le> length (convert g ?h1)" by (simp add: convert_length)
    have l2: "length (convert g ?h1) \<le> ?n2" using g2 by (auto simp: grown_def)
    have at_g2: "?h2 ! g = \<lparr>type = ALTERNATIVE, items = ?pre @ news\<rparr>"
      using g2 l1 lc at_g1 by (auto simp: grown_def convert_at)
    have other2: "\<forall>i<?n1. i \<noteq> g \<longrightarrow> ?h2 ! i = ?h1 ! i"
      using g2 l1 lc by (auto simp: grown_def convert_other)
    have w: "walk (concat (map node_events b) @ ?alts) st = Inr st2"
      using w1 weq w2 by (simp add: walk_append)
    have xs_b: "xs = [] \<longleftrightarrow> b = []"
      using r1 by (auto dest: list_all2_lengthD)
    have news: "list_all2 (rep_in (Suc g) ?n2 ?h2) news (map (Sequence GROUP) (map (map node_tree) bs))"
      using r2 l1 lc by (auto elim!: list_all2_mono intro: rep_in_widen)
    have pre_rep: "list_all2 (rep_in (Suc g) ?n2 ?h2) ?pre
        (if map node_tree b = [] then [] else [Sequence GROUP (map node_tree b)])"
    proof (cases "xs = []")
      case True
      then show ?thesis using xs_b by simp
    next
      case False
      have len: "length (convert g ?h1) = Suc ?n1" using False at_g1 by (simp add: convert_length)
      have at_w: "?h2 ! ?n1 = \<lparr>type = GROUP, items = xs\<rparr>"
        using g2 l1 len False at_g1 convert_wrapper[of g ?h1] by (auto simp: grown_def)
      have "same_on (Suc g) ?n1 ?h1 ?h2"
        using other2 l2 lc by (auto simp: same_on_def)
      then have "list_all2 (rep_in (Suc g) ?n1 ?h2) xs (map node_tree b)"
        using r1 by (auto elim!: list_all2_mono intro: rep_in_frame)
      then have "rep_in (Suc g) ?n2 ?h2 (Ref ?n1) (Sequence (type (?h2 ! ?n1)) (map node_tree b))"
        using l1 l2 len at_w by (intro rep_in.rep_Ref[where lo'="Suc g" and hi'="?n1"]) auto
      then show ?thesis using False xs_b at_w by simp
    qed
    have "list_all2 (rep_in (Suc g) ?n2 ?h2) (?pre @ news)
        (alternatives (map node_tree b) (map (map node_tree) bs))"
      unfolding alternatives_def using pre_rep news by (rule list_all2_appendI)
    moreover have "sequences st2 = map Some (cs' @ [g]) @ below" using q2 .
    moreover have "sentences st2 = sentences st" "sentence st2 = sentence st"
      using g2 s1 by (auto simp: grown_def)
    moreover have "Suc g \<le> ?n2" using l1 lc l2 by simp
    moreover have "\<forall>i<g. ?h2 ! i = heap st ! i" using other2 same1 l1 by auto
    ultimately show ?thesis
      using w at_g2 Cons
      by (intro exI[of _ st2] exI[of _ "cs' @ [g]"] exI[of _ "?pre @ news"]) simp
  qed
qed

lemma walk_append_Inr: "walk es st = Inr st' \<Longrightarrow> walk (es @ es') st = walk es' st'"
  by (simp add: walk_append)

lemma alts_events_eq:
  "concat (map (\<lambda>es. EnterAlt # concat es) (map (map node_events) bs))
     = concat (map (\<lambda>b. EnterAlt # concat (map node_events b)) bs)"
  by (simp add: o_def)

lemma group_ok:
  assumes okb: "\<forall>t \<in> set b. node_ok t" and okbs: "\<forall>b' \<in> set bs. \<forall>t \<in> set b'. node_ok t"
  shows "node_ok (NGroup b bs)"
  unfolding node_ok_def
proof (intro allI impI, elim conjE)
  fix st :: listener and a stk
  assume q: "sequences st = Some a # stk" and a: "a < length (heap st)"
  let ?g = "length (heap st)"
  let ?body = "concat (map node_events b) @ concat (map (\<lambda>b. EnterAlt # concat (map node_events b)) bs)"
  define st0 where "st0 = st\<lparr>sequences := Some ?g # None # sequences st,
      heap := heap st @ [\<lparr>type = GROUP, items = []\<rparr>]\<rparr>"
  have e0: "enterGroup st = Inr st0" by (simp add: enterGroup_def new_Sequence_def st0_def)
  have pre: "sequences st0 = Some ?g # None # Some a # stk" "length (heap st0) = Suc ?g"
    "heap st0 ! ?g = \<lparr>type = GROUP, items = []\<rparr>"
    using q by (auto simp: st0_def)
  from scope_body[OF okb okbs pre bottom_marker] obtain st1 cs its where
    w1: "walk ?body st0 = Inr st1" and
    q1: "sequences st1 = map Some cs @ None # Some a # stk" "cs \<noteq> []" "last cs = ?g" and
    s1: "sentences st1 = sentences st0" "sentence st1 = sentence st0" and
    l1: "Suc ?g \<le> length (heap st1)" and same1: "\<forall>i<?g. heap st1 ! i = heap st0 ! i" and
    at_g1: "heap st1 ! ?g = \<lparr>type = (if bs = [] then GROUP else ALTERNATIVE), items = its\<rparr>" and
    r1: "list_all2 (rep_in (Suc ?g) (length (heap st1)) (heap st1)) its
        (if bs = [] then map node_tree b
         else alternatives (map node_tree b) (map (map node_tree) bs))"
    by blast
  let ?h1 = "heap st1"
  define st2 where "st2 = st1\<lparr>sequences := Some a # stk, heap := append_item a (Ref ?g) ?h1\<rparr>"
  have e2: "exitGroup st1 = Inr st2"
    using pop_group_scope[OF q1(1,2)] q1(3)
    by (simp add: exitGroup_def last_sequence_def st2_def)
  have ev: "node_events (NGroup b bs) = EnterGroup # ?body @ [ExitGroup]"
    by (simp add: o_def)
  have w: "walk (node_events (NGroup b bs)) st = Inr st2"
    unfolding ev using e0 walk_append_Inr[OF w1, of "[ExitGroup]"] e2 by (simp del: append_assoc)
  have g: "grown st a [Ref ?g] st2"
    using s1 l1 same1 a by (auto simp: grown_def st2_def st0_def append_item_def nth_append)
  have l2: "length (heap st2) = length ?h1" by (simp add: st2_def append_item_def)
  have at_g2: "heap st2 ! ?g = heap st1 ! ?g"
    using a by (simp add: st2_def append_item_def)
  have "same_on (Suc ?g) (length ?h1) ?h1 (heap st2)"
    using a by (auto simp: same_on_def st2_def append_item_def)
  then have "list_all2 (rep_in (Suc ?g) (length ?h1) (heap st2)) its
        (if bs = [] then map node_tree b
         else alternatives (map node_tree b) (map (map node_tree) bs))"
    using r1 by (auto elim!: list_all2_mono intro: rep_in_frame)
  then have "rep_in ?g (length (heap st2)) (heap st2) (Ref ?g)
      (Sequence (type (heap st2 ! ?g)) (if bs = [] then map node_tree b
         else alternatives (map node_tree b) (map (map node_tree) bs)))"
    using l1 l2 at_g2 at_g1 by (intro rep_in.rep_Ref[where lo'="Suc ?g" and hi'="length ?h1"]) auto
  then have r: "rep_in ?g (length (heap st2)) (heap st2) (Ref ?g) (node_tree (NGroup b bs))"
    using at_g2 at_g1 by (auto simp: group_tree_def)
  have "sequences st2 = sequences st" using q by (simp add: st2_def)
  with w g r show "\<exists>st' x. walk (node_events (NGroup b bs)) st = Inr st' \<and>
      sequences st' = sequences st \<and> grown st a [x] st' \<and>
      rep_in (length (heap st)) (length (heap st')) (heap st') x (node_tree (NGroup b bs))"
    by blast
qed

lemma optional_ok:
  assumes okb: "\<forall>t \<in> set b. node_ok t" and okbs: "\<forall>b' \<in> set bs. \<forall>t \<in> set b'. node_ok t"
  shows "node_ok (NOptional b bs)"
  unfolding node_ok_def
proof (intro allI impI, elim conjE)
  fix st :: listener and a stk
  assume q: "sequences st = Some a # stk" and a: "a < length (heap st)"
  let ?g = "length (heap st)"
  let ?body = "concat (map node_events b) @ concat (map (\<lambda>b. EnterAlt # concat (map node_events b)) bs)"
  let ?trees = "if bs = [] then map node_tree b
         else alternatives (map node_tree b) (map (map node_tree) bs)"
  define st0 where "st0 = st\<lparr>sequences := Some ?g # None # sequences st,
      heap := heap st @ [\<lparr>type = GROUP, items = []\<rparr>]\<rparr>"
  have e0: "enterOptional st = Inr st0" by (simp add: enterOptional_def new_Sequence_def st0_def)
  have pre: "sequences st0 = Some ?g # None # Some a # stk" "length (heap st0) = Suc ?g"
    "heap st0 ! ?g = \<lparr>type = GROUP, items = []\<rparr>"
    using q by (auto simp: st0_def)
  from scope_body[OF okb okbs pre bottom_marker] obtain st1 cs its where
    w1: "walk ?body st0 = Inr st1" and
    q1: "sequences st1 = map Some cs @ None # Some a # stk" "cs \<noteq> []" "last cs = ?g" and
    s1: "sentences st1 = sentences st0" "sentence st1 = sentence st0" and
    l1: "Suc ?g \<le> length (heap st1)" and same1: "\<forall>i<?g. heap st1 ! i = heap st0 ! i" and
    at_g1: "heap st1 ! ?g = \<lparr>type = (if bs = [] then GROUP else ALTERNATIVE), items = its\<rparr>" and
    r1: "list_all2 (rep_in (Suc ?g) (length (heap st1)) (heap st1)) its ?trees"
    by blast
  let ?h1 = "heap st1"
  let ?n1 = "length ?h1"
  have len_its: "length its = length ?trees" using r1 by (rule list_all2_lengthD)
  define h2 where "h2 = append_item a (Ref ?g) (append_item ?g (Leaf (Word ''''))
        (if type (?h1 ! ?g) \<noteq> ALTERNATIVE
         then set_type ?g ALTERNATIVE
               (if length (items (?h1 ! ?g)) > 1
                then set_items ?g [Ref ?n1] (?h1 @ [\<lparr>type = GROUP, items = items (?h1 ! ?g)\<rparr>])
                else ?h1)
         else ?h1))"
  define st2 where "st2 = st1\<lparr>sequences := Some a # stk, heap := h2\<rparr>"
  have e2: "exitOptional st1 = Inr st2"
    using pop_group_scope[OF q1(1,2)] q1(3)
    by (simp add: exitOptional_def last_sequence_def new_Sequence_def Let_def st2_def h2_def)
  have q2: "sequences st2 = Some a # stk"
    and s2: "sentences st2 = sentences st1" "sentence st2 = sentence st1"
    and h2: "heap st2 = append_item a (Ref ?g) (append_item ?g (Leaf (Word ''''))
        (if type (?h1 ! ?g) \<noteq> ALTERNATIVE
         then set_type ?g ALTERNATIVE
               (if length (items (?h1 ! ?g)) > 1
                then set_items ?g [Ref ?n1] (?h1 @ [\<lparr>type = GROUP, items = items (?h1 ! ?g)\<rparr>])
                else ?h1)
         else ?h1))"
    by (simp_all add: st2_def h2_def)
  have ev: "node_events (NOptional b bs) = EnterOptional # ?body @ [ExitOptional]"
    by (simp add: o_def)
  have w: "walk (node_events (NOptional b bs)) st = Inr st2"
    unfolding ev using e0 walk_append_Inr[OF w1, of "[ExitOptional]"] e2 by (simp del: append_assoc)
  have g: "grown st a [Ref ?g] st2"
    using s1 s2 l1 same1 a unfolding grown_def h2
    by (auto simp: st0_def append_item_def set_type_def set_items_def nth_append)
  have seq: "sequences st2 = sequences st" using q q2 by simp
  have r: "rep_in ?g (length (heap st2)) (heap st2) (Ref ?g) (node_tree (NOptional b bs))"
  proof (cases "bs = [] \<and> length its > 1")
    case True
    have l2: "length (heap st2) = Suc ?n1"
      using True at_g1 unfolding h2 by (simp add: append_item_def set_type_def set_items_def)
    have at_g2: "heap st2 ! ?g = \<lparr>type = ALTERNATIVE, items = [Ref ?n1, Leaf (Word '''')]\<rparr>"
      using True at_g1 l1 a unfolding h2
      by (simp add: append_item_def set_type_def set_items_def nth_append)
    have at_w2: "heap st2 ! ?n1 = \<lparr>type = GROUP, items = its\<rparr>"
      using True at_g1 l1 a unfolding h2
      by (simp add: append_item_def set_type_def set_items_def nth_append)
    have "same_on (Suc ?g) ?n1 ?h1 (heap st2)"
      using a unfolding h2 same_on_def
      by (auto simp: append_item_def set_type_def set_items_def nth_append)
    then have "list_all2 (rep_in (Suc ?g) ?n1 (heap st2)) its (map node_tree b)"
      using r1 True by (auto elim!: list_all2_mono intro: rep_in_frame)
    then have "rep_in (Suc ?g) (Suc ?n1) (heap st2) (Ref ?n1)
        (Sequence (type (heap st2 ! ?n1)) (map node_tree b))"
      using l1 l2 at_w2 by (intro rep_in.rep_Ref[where lo'="Suc ?g" and hi'="?n1"]) auto
    then have "list_all2 (rep_in (Suc ?g) (Suc ?n1) (heap st2)) (items (heap st2 ! ?g))
        [Sequence GROUP (map node_tree b), Word '''']"
      using at_g2 at_w2 by (simp add: rep_in.rep_Leaf)
    then have "rep_in ?g (length (heap st2)) (heap st2) (Ref ?g)
        (Sequence (type (heap st2 ! ?g)) [Sequence GROUP (map node_tree b), Word ''''])"
      using l1 l2 by (intro rep_in.rep_Ref[where lo'="Suc ?g" and hi'="Suc ?n1"]) auto
    moreover have "bs = []" "length b > 1" using True len_its by auto
    ultimately show ?thesis
      using at_g2 by (simp add: optional_tree_def)
  next
    case False
    have l2: "length (heap st2) = ?n1"
      using False at_g1 unfolding h2 by (auto simp: append_item_def set_type_def set_items_def)
    have at_g2: "heap st2 ! ?g = \<lparr>type = ALTERNATIVE, items = its @ [Leaf (Word '''')]\<rparr>"
      using False at_g1 l1 a unfolding h2
      by (auto simp: append_item_def set_type_def set_items_def nth_append)
    have "same_on (Suc ?g) ?n1 ?h1 (heap st2)"
      using a unfolding h2 same_on_def
      by (auto simp: append_item_def set_type_def set_items_def nth_append)
    then have "list_all2 (rep_in (Suc ?g) ?n1 (heap st2)) its ?trees"
      using r1 by (auto elim!: list_all2_mono intro: rep_in_frame)
    then have "list_all2 (rep_in (Suc ?g) ?n1 (heap st2)) (items (heap st2 ! ?g))
        (?trees @ [Word ''''])"
      unfolding at_g2 by (auto intro!: list_all2_appendI simp: rep_in.rep_Leaf)
    then have "rep_in ?g (length (heap st2)) (heap st2) (Ref ?g)
        (Sequence (type (heap st2 ! ?g)) (?trees @ [Word '''']))"
      using l1 l2 by (intro rep_in.rep_Ref[where lo'="Suc ?g" and hi'="?n1"]) auto
    moreover have "bs = [] \<Longrightarrow> \<not> length b > 1" using False len_its by auto
    ultimately show ?thesis
      using at_g2 by (auto simp: optional_tree_def)
  qed
  with w g seq show "\<exists>st' x. walk (node_events (NOptional b bs)) st = Inr st' \<and>
      sequences st' = sequences st \<and> grown st a [x] st' \<and>
      rep_in (length (heap st)) (length (heap st')) (heap st') x (node_tree (NOptional b bs))"
    by blast
qed

lemma leaf_ok:
  assumes "\<And>st. dispatch e st = append_leaf x st"
  shows "\<forall>st a stk. sequences st = Some a # stk \<and> a < length (heap st) \<longrightarrow>
        (\<exists>st' y. walk [e] st = Inr st' \<and> sequences st' = sequences st \<and>
                 grown st a [y] st' \<and>
                 rep_in (length (heap st)) (length (heap st')) (heap st') y x)"
proof (intro allI impI, elim conjE)
  fix st :: listener and a stk
  assume "sequences st = Some a # stk" "a < length (heap st)"
  from append_leaf_top[OF this, of x] obtain st' where
    "append_leaf x st = Inr st'" "sequences st' = sequences st" "grown st a [Leaf x] st'"
    by blast
  then show "\<exists>st' y. walk [e] st = Inr st' \<and> sequences st' = sequences st \<and>
                 grown st a [y] st' \<and>
                 rep_in (length (heap st)) (length (heap st')) (heap st') y x"
    using assms rep_in.rep_Leaf by (intro exI[of _ st'] exI[of _ "Leaf x"]) simp
qed

lemma node_ok_all: "node_ok t"
proof (induction t)
  case (NWord w)
  show ?case unfolding node_ok_def using leaf_ok[of "EnterWord w" "word_item w"]
    by (simp add: enterWord_def)
next
  case (NRule n)
  show ?case unfolding node_ok_def using leaf_ok[of "EnterRule n" "RuleReference n"]
    by (simp add: enterRule_def)
next
  case (NList n)
  show ?case unfolding node_ok_def using leaf_ok[of "EnterList n" "ListReference n"]
    by (simp add: enterList_def)
next
  case (NGroup b bs)
  then show ?case by (intro group_ok) auto
next
  case (NOptional b bs)
  then show ?case by (intro optional_ok) auto
qed

lemma kept_refl: "kept st st" by (simp add: kept_def)

lemma kept_trans: "kept st st1 \<Longrightarrow> kept st1 st2 \<Longrightarrow> kept st st2"
  by (auto simp: kept_def)

lemma sentence_ok:
  "\<exists>st'. walk (sentence_events ns) st = Inr st' \<and>
         sentences st' = sentences st @ [length (heap st)] \<and>
         sentence st' = None \<and> sequences st' = [] \<and> kept st st' \<and>
         rep_in (length (heap st)) (length (heap st')) (heap st') (Ref (length (heap st)))
           (sentence_tree ns)"
proof -
  let ?r = "length (heap st)"
  define st0 where "st0 = st\<lparr>sentence := Some ?r, sequences := [Some ?r],
      heap := heap st @ [\<lparr>type = GROUP, items = []\<rparr>]\<rparr>"
  have e0: "enterSentence st = Inr st0"
    by (simp add: enterSentence_def new_Sequence_def st0_def)
  have pre: "sequences st0 = Some ?r # []" "?r < length (heap st0)" by (auto simp: st0_def)
  from items_ok[OF _ pre] node_ok_all obtain st1 xs where
    w1: "walk (concat (map node_events ns)) st0 = Inr st1" and q1: "sequences st1 = sequences st0" and
    g1: "grown st0 ?r xs st1" and
    r1: "list_all2 (rep_in (length (heap st0)) (length (heap st1)) (heap st1)) xs (map node_tree ns)"
    by blast
  define st2 where "st2 = st1\<lparr>sentences := sentences st1 @ [?r], sentence := None, sequences := []\<rparr>"
  have s1: "sentence st1 = Some ?r" "sentences st1 = sentences st"
    using g1 by (auto simp: grown_def st0_def)
  have e2: "exitSentence st1 = Inr st2" using s1 by (simp add: exitSentence_def st2_def)
  have w: "walk (sentence_events ns) st = Inr st2"
    unfolding sentence_events_def using e0 walk_append_Inr[OF w1, of "[ExitSentence]"] e2 by simp
  have l0: "length (heap st0) = Suc ?r" by (simp add: st0_def)
  have l1: "Suc ?r \<le> length (heap st1)" using g1 l0 by (auto simp: grown_def)
  have at_r: "heap st1 ! ?r = \<lparr>type = GROUP, items = xs\<rparr>"
    using g1 l0 by (auto simp: grown_def st0_def)
  have k: "kept st st2"
    using g1 l0 by (auto simp: kept_def grown_def st2_def st0_def nth_append)
  have "rep_in ?r (length (heap st1)) (heap st1) (Ref ?r) (Sequence (type (heap st1 ! ?r)) (map node_tree ns))"
    using r1 l1 at_r unfolding l0
    by (intro rep_in.rep_Ref[where lo'="Suc ?r" and hi'="length (heap st1)"]) auto
  then have "rep_in ?r (length (heap st2)) (heap st2) (Ref ?r) (sentence_tree ns)"
    using at_r by (simp add: st2_def sentence_tree_def)
  then show ?thesis using w k s1 by (intro exI[of _ st2]) (simp add: st2_def)
qed

lemma kept_same_on: "kept st st' \<Longrightarrow> same_on lo hi (heap st) (heap st')"
  by (auto simp: kept_def same_on_def)

lemma document_ok:
  "\<exists>st' news. walk (document_events d) st = Inr st' \<and>
         sentences st' = sentences st @ news \<and>
         sentence st' = (if d = [] then sentence st else None) \<and>
         sequences st' = (if d = [] then sequences st else []) \<and> kept st st' \<and>
         list_all2 (\<lambda>a t. rep_in (length (heap st)) (length (heap st')) (heap st') (Ref a) t)
           news (map sentence_tree d)"
proof (induction d arbitrary: st)
  case Nil
  show ?case by (intro exI[of _ st] exI[of _ "[]"]) (simp add: document_events_def kept_refl)
next
  case (Cons ns d)
  let ?n0 = "length (heap st)"
  from sentence_ok[of ns st] obtain st1 where
    w1: "walk (sentence_events ns) st = Inr st1" and
    s1: "sentences st1 = sentences st @ [?n0]" "sentence st1 = None" "sequences st1 = []" and
    k1: "kept st st1" and
    r1: "rep_in ?n0 (length (heap st1)) (heap st1) (Ref ?n0) (sentence_tree ns)"
    by blast
  let ?n1 = "length (heap st1)"
  from Cons.IH[of st1] obtain st2 news where
    w2: "walk (document_events d) st1 = Inr st2" and
    s2: "sentences st2 = sentences st1 @ news"
       "sentence st2 = (if d = [] then sentence st1 else None)"
       "sequences st2 = (if d = [] then sequences st1 else [])" and
    k2: "kept st1 st2" and
    r2: "list_all2 (\<lambda>a t. rep_in ?n1 (length (heap st2)) (heap st2) (Ref a) t)
           news (map sentence_tree d)"
    by blast
  let ?n2 = "length (heap st2)"
  have le: "?n0 \<le> ?n1" "?n1 \<le> ?n2" using k1 k2 by (auto simp: kept_def)
  have w: "walk (document_events (ns # d)) st = Inr st2"
    using walk_append_Inr[OF w1, of "document_events d"] w2 by (simp add: document_events_def)
  have "rep_in ?n0 ?n1 (heap st2) (Ref ?n0) (sentence_tree ns)"
    using r1 kept_same_on[OF k2] by (rule rep_in_frame)
  then have x: "rep_in ?n0 ?n2 (heap st2) (Ref ?n0) (sentence_tree ns)"
    using le by (auto intro: rep_in_widen)
  have "list_all2 (\<lambda>a t. rep_in ?n0 ?n2 (heap st2) (Ref a) t) news (map sentence_tree d)"
    using r2 le by (auto elim!: list_all2_mono intro: rep_in_widen)
  with x have r: "list_all2 (\<lambda>a t. rep_in ?n0 ?n2 (heap st2) (Ref a) t) (?n0 # news)
      (map sentence_tree (ns # d))" by simp
  have "sentences st2 = sentences st @ ?n0 # news" using s1 s2 by simp
  moreover have "sentence st2 = None" "sequences st2 = []" using s1 s2 by auto
  ultimately show ?case
    using w r kept_trans[OF k1 k2] by (intro exI[of _ st2] exI[of _ "?n0 # news"]) simp
qed

lemma those_map_Some: "those (map Some xs) = Some xs"
  by (induction xs) auto

lemma those_append:
  "those xs = Some as \<Longrightarrow> those ys = Some bs \<Longrightarrow> those (xs @ ys) = Some (as @ bs)"
  by (induction xs arbitrary: as) (auto split: option.splits)

lemma those_Some_nth:
  "those xs = Some ys \<Longrightarrow> xs = map Some ys"
  by (induction xs arbitrary: ys) (auto split: option.splits)

lemma tree_of_mono:
  "tree_of n h x = Some t \<Longrightarrow> n \<le> m \<Longrightarrow> length h \<le> length h' \<Longrightarrow>
   (\<forall>i < length h. h' ! i = h ! i) \<Longrightarrow> tree_of m h' x = Some t"
proof (induction n h x arbitrary: m t rule: tree_of.induct)
  case (1 n h e)
  then show ?case by simp
next
  case (2 h a)
  then show ?case by simp
next
  case (3 n h a)
  from "3.prems" obtain k where m: "m = Suc k" and k: "n \<le> k" by (cases m) auto
  from "3.prems"(1) obtain ts where a: "a < length h"
    and ts: "those (map (tree_of n h) (items (h ! a))) = Some ts"
    and t: "t = Sequence (type (h ! a)) ts"
    by (auto split: if_splits)
  have "map (tree_of n h) (items (h ! a)) = map Some ts" using ts by (rule those_Some_nth)
  then have "\<forall>i < length (items (h ! a)). tree_of n h (items (h ! a) ! i) = Some (ts ! i)"
    and len: "length ts = length (items (h ! a))"
    by (auto simp: list_eq_iff_nth_eq)
  then have "\<forall>i < length (items (h ! a)). tree_of k h' (items (h ! a) ! i) = Some (ts ! i)"
    using "3.IH"[OF a _ _ k "3.prems"(3,4)] by auto
  then have "map (tree_of k h') (items (h ! a)) = map Some ts"
    using len by (auto simp: list_eq_iff_nth_eq)
  then show ?case
    using a t m "3.prems"(3,4) by (simp add: those_map_Some)
qed

lemma sentence_trees_document:
  assumes "sentence_trees st = Some old"
  shows "\<exists>st'. walk (document_events d) st = Inr st' \<and>
           sentence_trees st' = Some (old @ map sentence_tree d) \<and>
           sentence st' = (if d = [] then sentence st else None) \<and>
           sequences st' = (if d = [] then sequences st else [])"
proof -
  from document_ok[of d st] obtain st' news where
    w: "walk (document_events d) st = Inr st'" and
    s: "sentences st' = sentences st @ news" and
    q: "sentence st' = (if d = [] then sentence st else None)"
       "sequences st' = (if d = [] then sequences st else [])" and
    k: "kept st st'" and
    r: "list_all2 (\<lambda>a t. rep_in (length (heap st)) (length (heap st')) (heap st') (Ref a) t)
           news (map sentence_tree d)"
    by blast
  let ?f = "\<lambda>a. tree_of (length (heap st)) (heap st) (Ref a)"
  let ?f' = "\<lambda>a. tree_of (length (heap st')) (heap st') (Ref a)"
  have "map ?f (sentences st) = map Some old"
    using assms unfolding sentence_trees_def by (rule those_Some_nth)
  then have "\<forall>i < length (sentences st). ?f (sentences st ! i) = Some (old ! i)"
    and len: "length old = length (sentences st)"
    by (auto simp: list_eq_iff_nth_eq)
  then have "\<forall>i < length (sentences st). ?f' (sentences st ! i) = Some (old ! i)"
    using k tree_of_mono[of "length (heap st)" "heap st" _ _ "length (heap st')" "heap st'"]
    by (auto simp: kept_def)
  then have "map ?f' (sentences st) = map Some old"
    using len by (auto simp: list_eq_iff_nth_eq)
  then have old: "those (map ?f' (sentences st)) = Some old" by (simp add: those_map_Some)
  have "list_all2 (\<lambda>a t. ?f' a = Some t) news (map sentence_tree d)"
    using r by (auto elim!: list_all2_mono intro: tree_of_rep_in)
  then have "map ?f' news = map Some (map sentence_tree d)"
    by (induction rule: list_all2_induct) auto
  then have "those (map ?f' news) = Some (map sentence_tree d)"
    using those_map_Some[of "map sentence_tree d"] by simp
  with old have "sentence_trees st' = Some (old @ map sentence_tree d)"
    unfolding sentence_trees_def s by (simp add: those_append)
  with w q show ?thesis by blast
qed

subsection \<open>Nodes of the parse tree and expressions of the tree\<close>

lemma subtrees_self: "e \<in> set (subtrees e)"
  by (cases e) auto

lemma subtrees_trans:
  "x \<in> set (subtrees y) \<Longrightarrow> y \<in> set (subtrees z) \<Longrightarrow> x \<in> set (subtrees z)"
proof (induction z)
  case (Sequence ty zs)
  show ?case
  proof (cases "y = Sequence ty zs")
    case True
    then show ?thesis using Sequence.prems by simp
  next
    case False
    then obtain z where "z \<in> set zs" "y \<in> set (subtrees z)"
      using Sequence.prems by auto
    then show ?thesis using Sequence.IH Sequence.prems(1) by auto
  qed
qed auto

lemma item_under: "x \<in> set xs \<Longrightarrow> x \<in> set (subtrees (Sequence ty xs))"
  using subtrees_self[of x] by auto

lemma word_item_leaf: "subtrees (word_item w) = [word_item w]"
  by (auto simp: word_item_def Let_def split: option.splits prod.splits)

lemma word_item_not_Sequence: "word_item w \<noteq> Sequence ty xs"
  by (auto simp: word_item_def Let_def split: option.splits prod.splits)

lemma branch_under_alternatives:
  assumes "c \<in> set (b # bs)" "x \<in> set c"
  shows "x \<in> set (subtrees (Sequence ty (alternatives b bs @ extra)))"
proof -
  have "Sequence GROUP c \<in> set (alternatives b bs @ extra)"
    using assms by (auto simp: alternatives_def)
  then have "Sequence GROUP c \<in> set (subtrees (Sequence ty (alternatives b bs @ extra)))"
    by (rule item_under)
  moreover have "x \<in> set (subtrees (Sequence GROUP c))" using assms(2) by (rule item_under)
  ultimately show ?thesis by (rule subtrees_trans[rotated])
qed

lemma branch_under_group:
  assumes "c \<in> set (b # bs)" "x \<in> set c"
  shows "x \<in> set (subtrees (group_tree b bs))"
proof (cases "bs = []")
  case True
  then have "x \<in> set b" using assms by simp
  then have "x \<in> set (subtrees (Sequence GROUP b))" by (rule item_under)
  then show ?thesis using True by (simp add: group_tree_def)
next
  case False
  show ?thesis
    using branch_under_alternatives[OF assms, of ALTERNATIVE "[]"] False
    by (simp add: group_tree_def)
qed

lemma branch_under_optional:
  assumes "c \<in> set (b # bs)" "x \<in> set c"
  shows "x \<in> set (subtrees (optional_tree b bs))"
proof (cases "bs = []")
  case True
  then have xb: "x \<in> set b" using assms by simp
  show ?thesis
  proof (cases "length b > 1")
    case True
    have "Sequence GROUP b \<in> set (subtrees (Sequence ALTERNATIVE ([Sequence GROUP b] @ [Word ''''])))"
      by (rule item_under) simp
    moreover have "x \<in> set (subtrees (Sequence GROUP b))" using xb by (rule item_under)
    ultimately have "x \<in> set (subtrees (Sequence ALTERNATIVE ([Sequence GROUP b] @ [Word ''''])))"
      by (rule subtrees_trans[rotated])
    then show ?thesis using True \<open>bs = []\<close> by (simp add: optional_tree_def)
  next
    case False
    have "x \<in> set (subtrees (Sequence ALTERNATIVE (b @ [Word ''''])))"
      by (rule item_under) (simp add: xb)
    then show ?thesis using False \<open>bs = []\<close> by (simp add: optional_tree_def)
  qed
next
  case False
  show ?thesis
    using branch_under_alternatives[OF assms, of ALTERNATIVE "[Word '''']"] False
    by (simp add: optional_tree_def)
qed

lemma span_tree_under: "s \<in> set (spans t) \<Longrightarrow> node_tree s \<in> set (subtrees (node_tree t))"
proof (induction t)
  case (NGroup b bs)
  show ?case
  proof (cases "s = NGroup b bs")
    case True
    then show ?thesis by (simp add: subtrees_self)
  next
    case False
    then obtain c n where c: "c \<in> set (b # bs)" and n: "n \<in> set c" and s: "s \<in> set (spans n)"
      using NGroup.prems by auto
    have "node_tree s \<in> set (subtrees (node_tree n))"
      using c n s NGroup.IH by auto
    moreover have "node_tree n \<in> set (subtrees (group_tree (map node_tree b) (map (map node_tree) bs)))"
      using c n by (intro branch_under_group[of "map node_tree c"]) auto
    ultimately show ?thesis by (simp add: subtrees_trans)
  qed
next
  case (NOptional b bs)
  show ?case
  proof (cases "s = NOptional b bs")
    case True
    then show ?thesis by (simp add: subtrees_self)
  next
    case False
    then obtain c n where c: "c \<in> set (b # bs)" and n: "n \<in> set c" and s: "s \<in> set (spans n)"
      using NOptional.prems by auto
    have "node_tree s \<in> set (subtrees (node_tree n))"
      using c n s NOptional.IH by auto
    moreover have "node_tree n \<in> set (subtrees (optional_tree (map node_tree b) (map (map node_tree) bs)))"
      using c n by (intro branch_under_optional[of "map node_tree c"]) auto
    ultimately show ?thesis by (simp add: subtrees_trans)
  qed
qed (auto simp: subtrees_self)


lemma under_alternatives:
  assumes "T \<in> set (concat (map subtrees (alternatives B BS)))"
  shows "\<exists>C\<in>set (B # BS). T = Sequence GROUP C \<or> (\<exists>x\<in>set C. T \<in> set (subtrees x))"
  using assms by (auto simp: alternatives_def split: if_splits)

lemma under_group_tree:
  assumes "T \<in> set (subtrees (group_tree B BS))"
  shows "T = group_tree B BS \<or>
         (\<exists>C\<in>set (B # BS). T = Sequence GROUP C \<or> (\<exists>x\<in>set C. T \<in> set (subtrees x)))"
proof (cases "BS = []")
  case True
  then show ?thesis using assms by (auto simp: group_tree_def)
next
  case False
  then have "T = group_tree B BS \<or> T \<in> set (concat (map subtrees (alternatives B BS)))"
    using assms by (auto simp: group_tree_def)
  then show ?thesis using under_alternatives[of T B BS] by blast
qed

lemma under_optional_tree:
  assumes "T \<in> set (subtrees (optional_tree B BS))"
  shows "T = optional_tree B BS \<or> T = Word '''' \<or>
         (\<exists>C\<in>set (B # BS). T = Sequence GROUP C \<or> (\<exists>x\<in>set C. T \<in> set (subtrees x)))"
proof (cases "BS = []")
  case True
  then show ?thesis using assms by (auto simp: optional_tree_def split: if_splits)
next
  case False
  then have "T = optional_tree B BS \<or> T = Word '''' \<or>
      T \<in> set (concat (map subtrees (alternatives B BS)))"
    using assms by (auto simp: optional_tree_def)
  then show ?thesis using under_alternatives[of T B BS] by blast
qed

lemma alternative_subtree_span:
  "Sequence ALTERNATIVE its \<in> set (subtrees (node_tree t)) \<Longrightarrow>
   \<exists>s \<in> set (spans t). node_tree s = Sequence ALTERNATIVE its \<and> scope s"
proof (induction t)
  case (NWord w)
  then show ?case by (simp add: word_item_leaf word_item_not_Sequence[symmetric])
next
  case (NGroup b bs)
  let ?T = "Sequence ALTERNATIVE its"
  from under_group_tree[of ?T "map node_tree b" "map (map node_tree) bs"] NGroup.prems
  consider (self) "?T = node_tree (NGroup b bs)"
    | (inner) c n where "c \<in> set (b # bs)" "n \<in> set c" "?T \<in> set (subtrees (node_tree n))"
    by auto
  then show ?case
  proof cases
    case self
    then have "bs \<noteq> []" by (auto simp: group_tree_def)
    then show ?thesis using self by (auto simp: scope_def)
  next
    case inner
    have "\<exists>s\<in>set (spans n). node_tree s = ?T \<and> scope s"
      using inner NGroup.IH by auto
    then obtain s where "s \<in> set (spans n)" "node_tree s = ?T" "scope s"
      by blast
    then show ?thesis using inner(1,2) by auto
  qed
next
  case (NOptional b bs)
  let ?T = "Sequence ALTERNATIVE its"
  from under_optional_tree[of ?T "map node_tree b" "map (map node_tree) bs"] NOptional.prems
  consider (self) "?T = node_tree (NOptional b bs)"
    | (inner) c n where "c \<in> set (b # bs)" "n \<in> set c" "?T \<in> set (subtrees (node_tree n))"
    by auto
  then show ?case
  proof cases
    case self
    then show ?thesis by (auto simp: scope_def)
  next
    case inner
    have "\<exists>s\<in>set (spans n). node_tree s = ?T \<and> scope s"
      using inner NOptional.IH by auto
    then obtain s where "s \<in> set (spans n)" "node_tree s = ?T" "scope s"
      by blast
    then show ?thesis using inner(1,2) by auto
  qed
qed auto

subsection \<open>The entry point and the shape of the trees\<close>

lemma parse_sentences_walk:
  "strip (join lines @ [newline]) \<noteq> [] \<Longrightarrow>
   parse_sentences document lines st
     = walk (document_events (document (join lines @ [newline]))) st"
  by (simp add: parse_sentences_def)

lemma parent_scan_no_marker:
  "parent_scan (map Some cs) p = (if cs = [] then p else Some (last cs))"
  by (induction cs arbitrary: p) auto

lemma strip_blank: "list_all whitespace s \<Longrightarrow> strip s = []"
proof -
  assume "list_all whitespace s"
  then have d: "dropWhile whitespace s = []" by (induction s) auto
  show ?thesis unfolding strip_def d by simp
qed

lemma join_blank: "\<forall>l\<in>set lines. list_all whitespace l \<Longrightarrow> list_all whitespace (join lines)"
  by (induction lines rule: join.induct) (auto simp: whitespace_def newline_def)

lemma parse_sentences_blank:
  "\<forall>l\<in>set lines. list_all whitespace l \<Longrightarrow> parse_sentences document lines st = Inr st"
  using join_blank[of lines] strip_blank[of "join lines @ [newline]"]
  by (simp add: parse_sentences_def whitespace_def newline_def)

lemma sentence_trees_init: "sentence_trees init = Some []"
  by (simp add: sentence_trees_def init_def)

lemma parse_sentences_init:
  assumes "strip (join lines @ [newline]) \<noteq> []"
  shows "\<exists>st. parse_sentences document lines init = Inr st \<and>
           sentence_trees st = Some (map sentence_tree (document (join lines @ [newline])))"
  using sentence_trees_document[OF sentence_trees_init, of "document (join lines @ [newline])"]
  unfolding parse_sentences_walk[OF assms] by auto

lemma span_under_sentence:
  assumes "s \<in> set (concat (map spans ns))"
  shows "node_tree s \<in> set (subtrees (sentence_tree ns))"
proof -
  from assms obtain n where n: "n \<in> set ns" and s: "s \<in> set (spans n)" by auto
  have "node_tree s \<in> set (subtrees (node_tree n))" using s by (rule span_tree_under)
  moreover have "node_tree n \<in> set (subtrees (sentence_tree ns))"
    unfolding sentence_tree_def using n by (intro item_under) simp
  ultimately show ?thesis by (rule subtrees_trans)
qed

lemma scope_items:
  assumes "scope s" "node_tree s = Sequence ALTERNATIVE its"
  shows "\<exists>b bs. (s = NGroup b bs \<or> s = NOptional b bs) \<and>
           (\<forall>c\<in>set (b # bs). length c > 1 \<longrightarrow> Sequence GROUP (map node_tree c) \<in> set its) \<and>
           (\<forall>x\<in>set its. x = Word '''' \<or>
              (\<exists>c\<in>set (b # bs). x = Sequence GROUP (map node_tree c) \<or> map node_tree c = [x]))"
proof (cases s)
  case (NGroup b bs)
  then have bs: "bs \<noteq> []" using assms(1) by (simp add: scope_def)
  then have its: "its = alternatives (map node_tree b) (map (map node_tree) bs)"
    using assms(2) NGroup by (simp add: group_tree_def)
  have "\<forall>c\<in>set (b # bs). length c > 1 \<longrightarrow> Sequence GROUP (map node_tree c) \<in> set its"
    unfolding its alternatives_def by auto
  moreover have "\<forall>x\<in>set its. x = Word '''' \<or>
      (\<exists>c\<in>set (b # bs). x = Sequence GROUP (map node_tree c) \<or> map node_tree c = [x])"
    unfolding its alternatives_def by auto
  ultimately show ?thesis using NGroup by blast
next
  case (NOptional b bs)
  show ?thesis
  proof (cases "bs = []")
    case True
    then have its: "its = (if length b > 1 then [Sequence GROUP (map node_tree b)]
        else map node_tree b) @ [Word '''']"
      using assms(2) NOptional by (simp add: optional_tree_def)
    have "\<forall>c\<in>set (b # bs). length c > 1 \<longrightarrow> Sequence GROUP (map node_tree c) \<in> set its"
      unfolding its using True by auto
    moreover have "\<forall>x\<in>set its. x = Word '''' \<or>
        (\<exists>c\<in>set (b # bs). x = Sequence GROUP (map node_tree c) \<or> map node_tree c = [x])"
    proof (cases "length b > 1")
      case True
      then show ?thesis unfolding its by auto
    next
      case False
      then have "b = [] \<or> (\<exists>n. b = [n])" by (cases b) auto
      then show ?thesis unfolding its using False by auto
    qed
    ultimately show ?thesis using NOptional by blast
  next
    case False
    then have its: "its = alternatives (map node_tree b) (map (map node_tree) bs) @ [Word '''']"
      using assms(2) NOptional by (simp add: optional_tree_def)
    have "\<forall>c\<in>set (b # bs). length c > 1 \<longrightarrow> Sequence GROUP (map node_tree c) \<in> set its"
      unfolding its alternatives_def by auto
    moreover have "\<forall>x\<in>set its. x = Word '''' \<or>
        (\<exists>c\<in>set (b # bs). x = Sequence GROUP (map node_tree c) \<or> map node_tree c = [x])"
      unfolding its alternatives_def by auto
    ultimately show ?thesis using NOptional by blast
  qed
qed (use assms(1) in \<open>auto simp: scope_def\<close>)

lemma alternative_under_sentence:
  assumes "Sequence ALTERNATIVE its \<in> set (subtrees (sentence_tree ns))"
  shows "\<exists>s \<in> set (concat (map spans ns)). node_tree s = Sequence ALTERNATIVE its \<and> scope s"
proof -
  from assms obtain n where n: "n \<in> set ns"
    and "Sequence ALTERNATIVE its \<in> set (subtrees (node_tree n))"
    by (auto simp: sentence_tree_def)
  then obtain s where "s \<in> set (spans n)" "node_tree s = Sequence ALTERNATIVE its" "scope s"
    using alternative_subtree_span by blast
  then show ?thesis using n by auto
qed

subsection \<open>A sentence with separators outside any group\<close>

text \<open>
  The walk of a sentence whose top level holds the branches \<open>b\<close> and \<open>bs\<close>: the
  separators meet a stack with no marker, and the root of the sentence takes the place
  of the scope.
\<close>

lemma sentence_alts_ok:
  "\<exists>st'. walk (EnterSentence # (concat (map node_events b)
              @ concat (map (\<lambda>c. EnterAlt # concat (map node_events c)) bs)) @ [ExitSentence]) st
           = Inr st' \<and>
         sentences st' = sentences st @ [length (heap st)] \<and>
         sentence st' = None \<and> sequences st' = [] \<and> kept st st' \<and>
         rep_in (length (heap st)) (length (heap st')) (heap st') (Ref (length (heap st)))
           (group_tree (map node_tree b) (map (map node_tree) bs))"
proof -
  let ?r = "length (heap st)"
  let ?body = "concat (map node_events b)
              @ concat (map (\<lambda>c. EnterAlt # concat (map node_events c)) bs)"
  let ?trees = "if bs = [] then map node_tree b
         else alternatives (map node_tree b) (map (map node_tree) bs)"
  define st0 where "st0 = st\<lparr>sentence := Some ?r, sequences := [Some ?r],
      heap := heap st @ [\<lparr>type = GROUP, items = []\<rparr>]\<rparr>"
  have e0: "enterSentence st = Inr st0"
    by (simp add: enterSentence_def new_Sequence_def st0_def)
  have pre: "sequences st0 = Some ?r # []" "length (heap st0) = Suc ?r"
    "heap st0 ! ?r = \<lparr>type = GROUP, items = []\<rparr>"
    by (auto simp: st0_def)
  have okb: "\<forall>t \<in> set b. node_ok t" and okbs: "\<forall>c \<in> set bs. \<forall>t \<in> set c. node_ok t"
    using node_ok_all by auto
  from scope_body[OF okb okbs pre bottom_Nil] obtain st1 cs its where
    w1: "walk ?body st0 = Inr st1" and
    q1: "sequences st1 = map Some cs @ []" and
    s1: "sentences st1 = sentences st0" "sentence st1 = sentence st0" and
    l1: "Suc ?r \<le> length (heap st1)" and same1: "\<forall>i<?r. heap st1 ! i = heap st0 ! i" and
    at_r: "heap st1 ! ?r = \<lparr>type = (if bs = [] then GROUP else ALTERNATIVE), items = its\<rparr>" and
    r1: "list_all2 (rep_in (Suc ?r) (length (heap st1)) (heap st1)) its ?trees"
    by blast
  define st2 where "st2 = st1\<lparr>sentences := sentences st1 @ [?r], sentence := None, sequences := []\<rparr>"
  have e2: "exitSentence st1 = Inr st2"
    using s1 by (simp add: exitSentence_def st2_def st0_def)
  have w: "walk (EnterSentence # ?body @ [ExitSentence]) st = Inr st2"
    using e0 walk_append_Inr[OF w1, of "[ExitSentence]"] e2 by (simp del: append_assoc)
  have k: "kept st st2"
    using l1 same1 by (auto simp: kept_def st2_def st0_def nth_append)
  have "rep_in ?r (length (heap st1)) (heap st1) (Ref ?r) (Sequence (type (heap st1 ! ?r)) ?trees)"
    using r1 l1 at_r
    by (intro rep_in.rep_Ref[where lo'="Suc ?r" and hi'="length (heap st1)"]) auto
  then have "rep_in ?r (length (heap st2)) (heap st2) (Ref ?r)
      (group_tree (map node_tree b) (map (map node_tree) bs))"
    using at_r by (auto simp: st2_def group_tree_def)
  then show ?thesis using w k s1 by (intro exI[of _ st2]) (simp add: st2_def st0_def)
qed

lemma sentence_trees_alts:
  assumes "sentence_trees st = Some old"
  shows "\<exists>st'. walk (EnterSentence # (concat (map node_events b)
              @ concat (map (\<lambda>c. EnterAlt # concat (map node_events c)) bs)) @ [ExitSentence]) st
           = Inr st' \<and>
         sentences st' = sentences st @ [length (heap st)] \<and>
         sentence st' = None \<and> sequences st' = [] \<and>
         sentence_trees st' = Some (old @ [group_tree (map node_tree b) (map (map node_tree) bs)])"
proof -
  let ?evs = "EnterSentence # (concat (map node_events b)
              @ concat (map (\<lambda>c. EnterAlt # concat (map node_events c)) bs)) @ [ExitSentence]"
  let ?t = "group_tree (map node_tree b) (map (map node_tree) bs)"
  from sentence_alts_ok[of b bs st] obtain st' where
    w: "walk ?evs st = Inr st'" and
    s: "sentences st' = sentences st @ [length (heap st)]" and
    z: "sentence st' = None" "sequences st' = []" and k: "kept st st'" and
    r: "rep_in (length (heap st)) (length (heap st')) (heap st') (Ref (length (heap st))) ?t"
    by blast
  let ?f = "\<lambda>a. tree_of (length (heap st)) (heap st) (Ref a)"
  let ?f' = "\<lambda>a. tree_of (length (heap st')) (heap st') (Ref a)"
  have "map ?f (sentences st) = map Some old"
    using assms unfolding sentence_trees_def by (rule those_Some_nth)
  then have "\<forall>i < length (sentences st). ?f (sentences st ! i) = Some (old ! i)"
    and len: "length old = length (sentences st)"
    by (auto simp: list_eq_iff_nth_eq)
  then have "\<forall>i < length (sentences st). ?f' (sentences st ! i) = Some (old ! i)"
    using k tree_of_mono[of "length (heap st)" "heap st" _ _ "length (heap st')" "heap st'"]
    by (auto simp: kept_def)
  then have "map ?f' (sentences st) = map Some old"
    using len by (auto simp: list_eq_iff_nth_eq)
  then have old: "those (map ?f' (sentences st)) = Some old" by (simp add: those_map_Some)
  have "?f' (length (heap st)) = Some ?t"
    using r by (rule tree_of_rep_in) simp
  then have "those (map ?f' [length (heap st)]) = Some [?t]" by simp
  with old have "sentence_trees st' = Some (old @ [?t])"
    unfolding sentence_trees_def s by (simp add: those_append del: those.simps)
  with w s z show ?thesis by blast
qed

subsection \<open>The word classifier on padded texts and on digits\<close>

lemma strip_pad:
  assumes "list_all whitespace pre" "list_all whitespace post"
  shows "strip (pre @ s @ post) = strip s"
proof -
  have pre: "dropWhile whitespace (pre @ s @ post) = dropWhile whitespace (s @ post)"
    using assms(1) by (intro dropWhile_append2) (auto simp: list_all_iff)
  have post: "dropWhile whitespace (rev post @ ys) = dropWhile whitespace ys" for ys
    using assms(2) by (intro dropWhile_append2) (auto simp: list_all_iff)
  show ?thesis
  proof (cases "list_all whitespace s")
    case True
    then have "list_all whitespace (s @ post)" using assms(2) by simp
    then have "strip (s @ post) = []" "strip s = []" using True by (simp_all add: strip_blank)
    moreover have "strip (pre @ s @ post) = strip (s @ post)" by (simp add: strip_def pre)
    ultimately show ?thesis by simp
  next
    case False
    then obtain x where "x \<in> set s" "\<not> whitespace x" by (auto simp: list_all_iff)
    then have "dropWhile whitespace (s @ post) = dropWhile whitespace s @ post"
      by (simp add: dropWhile_append1)
    then show ?thesis by (simp add: strip_def pre post)
  qed
qed

lemma word_item_pad:
  "list_all whitespace pre \<Longrightarrow> list_all whitespace post \<Longrightarrow>
   word_item (pre @ raw @ post) = word_item raw"
  by (simp add: word_item_def strip_pad)

lemma digit_plain:
  "digit c \<Longrightarrow> \<not> whitespace c \<and> c \<noteq> CHR 0x5C \<and> \<not> quote c \<and> c \<noteq> CHR ''-'' \<and> c \<noteq> CHR ''+''
     \<and> c \<noteq> CHR ''.''"
  by (auto simp: digit_def whitespace_def quote_def)

lemma strip_id:
  assumes "s \<noteq> []" "\<not> whitespace (hd s)" "\<not> whitespace (last s)"
  shows "strip s = s"
proof -
  have a: "dropWhile whitespace s = s"
    using assms(1,2) by (cases s) auto
  have "rev s \<noteq> []" "\<not> whitespace (hd (rev s))"
    using assms(1,3) by (simp_all add: hd_rev)
  then have b: "dropWhile whitespace (rev s) = rev s"
    by (cases "rev s") auto
  show ?thesis unfolding strip_def a b by simp
qed

lemma remove_escapes_id: "CHR 0x5C \<notin> set s \<Longrightarrow> remove_escapes s = s"
  by (induction s rule: remove_escapes.induct) auto

lemma remove_quotes_id: "\<not> quote (hd s) \<Longrightarrow> remove_quotes s = s"
  by (simp add: remove_quotes_def)

lemma int_of_digits: "ds \<noteq> [] \<Longrightarrow> list_all digit ds \<Longrightarrow> int_of ds = digits_value ds"
  by (cases ds) (auto simp: int_of_def dest: digit_plain)

lemma NUMBER_PATTERN_digits: "ds \<noteq> [] \<Longrightarrow> list_all digit ds \<Longrightarrow> NUMBER_PATTERN ds = Some ds"
  by (cases ds) (auto simp: NUMBER_PATTERN_def dest: digit_plain)

lemma clean_digits:
  assumes "ds \<noteq> []" "list_all digit ds"
  shows "remove_quotes (remove_escapes (strip ds)) = ds"
proof -
  have h: "digit (hd ds)" "digit (last ds)"
    using assms by (auto simp: list_all_iff)
  have s: "strip ds = ds"
    using assms(1) h by (intro strip_id) (auto dest: digit_plain)
  have e: "remove_escapes ds = ds"
    using assms(2) by (intro remove_escapes_id) (auto simp: list_all_iff dest: digit_plain)
  have q: "remove_quotes ds = ds"
    using h by (intro remove_quotes_id) (auto dest: digit_plain)
  show ?thesis by (simp add: s e q)
qed

lemma word_item_digits:
  "ds \<noteq> [] \<Longrightarrow> list_all digit ds \<Longrightarrow> word_item ds = Number (digits_value ds)"
  by (simp add: word_item_def clean_digits NUMBER_PATTERN_digits int_of_digits)

lemma clean_range:
  assumes "t \<noteq> []" "digit (hd t)" "digit (last t)" "\<forall>c\<in>set t. digit c \<or> c = CHR ''.''"
  shows "remove_quotes (remove_escapes (strip t)) = t"
proof -
  have s: "strip t = t"
    using assms(1-3) by (intro strip_id) (auto dest: digit_plain)
  have "CHR 0x5C \<notin> set t"
    using assms(4) by (auto dest: digit_plain)
  then have e: "remove_escapes t = t" by (rule remove_escapes_id)
  have q: "remove_quotes t = t"
    using assms(2) by (intro remove_quotes_id) (auto dest: digit_plain)
  show ?thesis by (simp only: s e q)
qed

lemma not_digit_dot: "\<not> digit CHR ''.''"
  by (simp add: digit_def)

lemma takeWhile_digits: "list_all digit ds \<Longrightarrow> takeWhile digit (ds @ CHR ''.'' # r) = ds"
  by (induction ds) (auto simp: not_digit_dot)

lemma dropWhile_digits: "list_all digit ds \<Longrightarrow> dropWhile digit (ds @ CHR ''.'' # r) = CHR ''.'' # r"
  by (induction ds) (auto simp: not_digit_dot)

lemma takeWhile_all: "list_all digit ds \<Longrightarrow> takeWhile digit ds = ds"
  by (induction ds) auto

lemma dropWhile_all: "list_all digit ds \<Longrightarrow> dropWhile digit ds = []"
  by (induction ds) auto

lemma NUMBER_PATTERN_range:
  "lo \<noteq> [] \<Longrightarrow> list_all digit lo \<Longrightarrow> NUMBER_PATTERN (lo @ CHR ''.'' # r) = None"
  by (cases lo) (auto simp: NUMBER_PATTERN_def not_digit_dot dest: digit_plain)

lemma NUMBER_RANGE_PATTERN_two:
  "lo \<noteq> [] \<Longrightarrow> list_all digit lo \<Longrightarrow> up \<noteq> [] \<Longrightarrow> list_all digit up \<Longrightarrow>
   NUMBER_RANGE_PATTERN (lo @ ''..'' @ up) = Some (lo, up, None)"
  by (simp add: NUMBER_RANGE_PATTERN_def takeWhile_digits dropWhile_digits takeWhile_all
      dropWhile_all)

lemma NUMBER_RANGE_PATTERN_three:
  "lo \<noteq> [] \<Longrightarrow> list_all digit lo \<Longrightarrow> up \<noteq> [] \<Longrightarrow> list_all digit up \<Longrightarrow>
   step \<noteq> [] \<Longrightarrow> list_all digit step \<Longrightarrow>
   NUMBER_RANGE_PATTERN (lo @ ''..'' @ up @ ''..'' @ step) = Some (lo, up, Some step)"
  by (simp add: NUMBER_RANGE_PATTERN_def takeWhile_digits dropWhile_digits)

lemma word_item_range_two:
  assumes "lo \<noteq> []" "list_all digit lo" "up \<noteq> []" "list_all digit up"
  shows "word_item (lo @ ''..'' @ up) = NumberRange (digits_value lo) (digits_value up) 1"
proof -
  have c: "remove_quotes (remove_escapes (strip (lo @ ''..'' @ up))) = lo @ ''..'' @ up"
    using assms by (intro clean_range) (auto simp: list_all_iff)
  have n: "NUMBER_PATTERN (lo @ ''..'' @ up) = None"
    using NUMBER_PATTERN_range[OF assms(1,2)] by simp
  have one: "int_of ''1'' = 1" by code_simp
  show ?thesis
    unfolding word_item_def c
    by (simp only: Let_def n NUMBER_RANGE_PATTERN_two[OF assms] option.case prod.case
        int_of_digits[OF assms(1,2)] int_of_digits[OF assms(3,4)] one)
qed

lemma word_item_range_three:
  assumes "lo \<noteq> []" "list_all digit lo" "up \<noteq> []" "list_all digit up"
    "step \<noteq> []" "list_all digit step"
  shows "word_item (lo @ ''..'' @ up @ ''..'' @ step)
           = NumberRange (digits_value lo) (digits_value up) (digits_value step)"
proof -
  have c': "remove_quotes (remove_escapes (strip (lo @ ''..'' @ up @ ''..'' @ step)))
             = lo @ ''..'' @ up @ ''..'' @ step"
    using assms by (intro clean_range) (auto simp: list_all_iff)
  have n: "NUMBER_PATTERN (lo @ ''..'' @ up @ ''..'' @ step) = None"
    using NUMBER_PATTERN_range[OF assms(1,2)] by simp
  show ?thesis
    unfolding word_item_def c'
    using assms(5)
    by (simp only: Let_def n NUMBER_RANGE_PATTERN_three[OF assms] option.case prod.case
        int_of_digits[OF assms(1,2)] int_of_digits[OF assms(3,4)] int_of_digits[OF assms(5,6)]
        if_False)
qed

section \<open>The claims\<close>

text \<open>
  In the theorems below a compiled text is described by its parse tree: the front end is
  the parameter \<open>document\<close> of \<open>parse_sentences\<close>, and a theorem about a particular
  template assumes the parse tree that the front end reports for it. The examples
  evaluate the walk over that parse tree on a new listener.
\<close>

text \<open>
  C1. A separator arrives inside a group or optional: the stack holds the sequences
  \<open>cs\<close> above the nearest marker, and the enclosing scope \<open>s\<close> is the one just above
  the marker. If \<open>s\<close> is not yet an \<open>ALTERNATIVE\<close> and has items, they move into one
  new \<open>GROUP\<close>, which becomes the only item of \<open>s\<close>; the type of \<open>s\<close> becomes
  \<open>ALTERNATIVE\<close>; in all cases a new empty \<open>GROUP\<close> is appended to the items of
  \<open>s\<close> and pushed on the stack with no marker, so that it is the target of
  \<open>last_sequence\<close>. No other object changes, and a word that follows is appended to
  the new group, which is the same object as the last item of \<open>s\<close>.
\<close>

theorem enterAlt_in_scope:
  assumes "sequences st = map Some cs @ None # stk" "cs \<noteq> []" "last cs < length (heap st)"
  shows "let s = last cs; h = heap st; n = length h; its = items (h ! s);
             wrap = (type (h ! s) \<noteq> ALTERNATIVE \<and> its \<noteq> []);
             next_group = (if wrap then Suc n else n)
         in \<exists>st'. enterAlt st = Inr st' \<and>
              sequences st' = Some next_group # sequences st \<and>
              last_sequence st' = Inr next_group \<and>
              sentences st' = sentences st \<and> sentence st' = sentence st \<and>
              length (heap st') = Suc next_group \<and>
              heap st' ! next_group = \<lparr>type = GROUP, items = []\<rparr> \<and>
              heap st' ! s =
                \<lparr>type = ALTERNATIVE, items = (if wrap then [Ref n] else its) @ [Ref next_group]\<rparr> \<and>
              (if wrap then heap st' ! n = \<lparr>type = GROUP, items = its\<rparr> else True) \<and>
              (\<forall>i<n. i \<noteq> s \<longrightarrow> heap st' ! i = h ! i) \<and>
              (\<exists>st''. enterWord w st' = Inr st'' \<and>
                 heap st'' ! next_group = \<lparr>type = GROUP, items = [Leaf (word_item w)]\<rparr> \<and>
                 heap st'' ! s = heap st' ! s)"
proof (cases "type (heap st ! last cs)")
  case ALTERNATIVE
  show ?thesis
    using enterAlt_alternative[OF assms ALTERNATIVE bottom_marker] assms ALTERNATIVE
    by (cases "heap st ! last cs")
       (simp add: Let_def last_sequence_def enterWord_def append_leaf_def append_item_def
          nth_append nth_list_update)
next
  case GROUP
  show ?thesis
  proof (cases "items (heap st ! last cs) = []")
    case True
    show ?thesis
      using enterAlt_group_empty[OF assms GROUP True bottom_marker] assms GROUP True
      by (simp add: Let_def last_sequence_def enterWord_def append_leaf_def append_item_def
          nth_append nth_list_update)
  next
    case False
    show ?thesis
      using enterAlt_group_items[OF assms GROUP False bottom_marker] assms GROUP False
      by (simp add: Let_def last_sequence_def enterWord_def append_leaf_def append_item_def
          nth_append nth_list_update)
  qed
qed

text \<open>The state after \<open>(a\<close>, just before the separator of \<open>(a | b c)\<close>.\<close>

theorem enterAlt_in_scope_witness:
  "sequences \<lparr>sentences = [], sentence = Some 0, sequences = [Some 1, None, Some 0],
       heap = [\<lparr>type = GROUP, items = []\<rparr>, \<lparr>type = GROUP, items = [Leaf (Word ''a'')]\<rparr>]\<rparr>
     = map Some [1] @ None # [Some 0] \<and>
   (\<exists>st' st''.
      enterAlt \<lparr>sentences = [], sentence = Some 0, sequences = [Some 1, None, Some 0],
        heap = [\<lparr>type = GROUP, items = []\<rparr>, \<lparr>type = GROUP, items = [Leaf (Word ''a'')]\<rparr>]\<rparr>
        = Inr st' \<and>
      sequences st' = [Some 3, Some 1, None, Some 0] \<and>
      last_sequence st' = Inr 3 \<and>
      length (heap st') = 4 \<and>
      heap st' ! 1 = \<lparr>type = ALTERNATIVE, items = [Ref 2, Ref 3]\<rparr> \<and>
      heap st' ! 2 = \<lparr>type = GROUP, items = [Leaf (Word ''a'')]\<rparr> \<and>
      heap st' ! 3 = \<lparr>type = GROUP, items = []\<rparr> \<and>
      enterWord ''b'' st' = Inr st'' \<and>
      heap st'' ! 3 = \<lparr>type = GROUP, items = [Leaf (Word ''b'')]\<rparr> \<and>
      heap st'' ! 1 = \<lparr>type = ALTERNATIVE, items = [Ref 2, Ref 3]\<rparr>)"
proof -
  let ?st = "\<lparr>sentences = [], sentence = Some 0, sequences = [Some 1, None, Some 0],
       heap = [\<lparr>type = GROUP, items = []\<rparr>, \<lparr>type = GROUP, items = [Leaf (Word ''a'')]\<rparr>]\<rparr>"
  have h: "sequences ?st = map Some [1] @ None # [Some 0]" "[1::nat] \<noteq> []"
    "last [1] < length (heap ?st)"
    by simp_all
  have w: "word_item ''b'' = Word ''b''" by code_simp
  have "\<exists>st'. enterAlt ?st = Inr st' \<and>
      sequences st' = [Some 3, Some 1, None, Some 0] \<and>
      last_sequence st' = Inr 3 \<and>
      length (heap st') = 4 \<and>
      heap st' ! 3 = \<lparr>type = GROUP, items = []\<rparr> \<and>
      heap st' ! 1 = \<lparr>type = ALTERNATIVE, items = [Ref 2, Ref 3]\<rparr> \<and>
      heap st' ! 2 = \<lparr>type = GROUP, items = [Leaf (Word ''a'')]\<rparr> \<and>
      (\<exists>st''. enterWord ''b'' st' = Inr st'' \<and>
         heap st'' ! 3 = \<lparr>type = GROUP, items = [Leaf (Word ''b'')]\<rparr> \<and>
         heap st'' ! 1 = heap st' ! 1)"
    using enterAlt_in_scope[OF h, of "''b''"] unfolding w
    by (simp add: Let_def eval_nat_numeral) blast
  then show ?thesis using h(1) by auto
qed

text \<open>
  C2, as stated, fails: for \<open>(a | b c)\<close> the first item of the \<open>ALTERNATIVE\<close> is not
  the bare \<open>Word "a"\<close>. At the separator the scope holds the item \<open>a\<close>, and \<open>enterAlt\<close>
  wraps whatever items the scope holds, one or many, into a \<open>GROUP\<close>.
\<close>

theorem group_alternation_counterexample:
  "walk (document_events [[NGroup [NWord ''a''] [[NWord ''b'', NWord ''c'']]]]) init =
     Inr \<lparr>sentences = [0], sentence = None, sequences = [],
          heap = [\<lparr>type = GROUP, items = [Ref 1]\<rparr>,
                  \<lparr>type = ALTERNATIVE, items = [Ref 2, Ref 3]\<rparr>,
                  \<lparr>type = GROUP, items = [Leaf (Word ''a'')]\<rparr>,
                  \<lparr>type = GROUP, items = [Leaf (Word ''b''), Leaf (Word ''c'')]\<rparr>]\<rparr> \<and>
   sentence_trees \<lparr>sentences = [0], sentence = None, sequences = [],
          heap = [\<lparr>type = GROUP, items = [Ref 1]\<rparr>,
                  \<lparr>type = ALTERNATIVE, items = [Ref 2, Ref 3]\<rparr>,
                  \<lparr>type = GROUP, items = [Leaf (Word ''a'')]\<rparr>,
                  \<lparr>type = GROUP, items = [Leaf (Word ''b''), Leaf (Word ''c'')]\<rparr>]\<rparr>
     = Some [Sequence GROUP [Sequence ALTERNATIVE
               [Sequence GROUP [Word ''a''], Sequence GROUP [Word ''b'', Word ''c'']]]] \<and>
   Sequence GROUP [Word ''a''] \<noteq> Word ''a''"
  by code_simp

text \<open>
  C2, amended. Compiling the single template \<open>(a | b c)\<close> yields one sentence whose root
  is a \<open>GROUP\<close> with exactly one item, an \<open>ALTERNATIVE\<close> with exactly two items: the
  first is a nested \<open>GROUP\<close> whose only item is \<open>Word "a"\<close>, the second a nested
  \<open>GROUP\<close> whose items are \<open>Word "b"\<close> and \<open>Word "c"\<close>.
\<close>

theorem group_alternation_tree:
  assumes "document (''(a | b c)'' @ [newline])
             = [[NGroup [NWord ''a''] [[NWord ''b'', NWord ''c'']]]]"
  shows "\<exists>st. parse_sentences document [''(a | b c)''] init = Inr st \<and>
           sentence_trees st =
             Some [Sequence GROUP [Sequence ALTERNATIVE
                     [Sequence GROUP [Word ''a''], Sequence GROUP [Word ''b'', Word ''c'']]]]"
proof -
  have nb: "strip (join [''(a | b c)''] @ [newline]) \<noteq> []" by code_simp
  have w: "walk (document_events [[NGroup [NWord ''a''] [[NWord ''b'', NWord ''c'']]]]) init =
     Inr \<lparr>sentences = [0], sentence = None, sequences = [],
          heap = [\<lparr>type = GROUP, items = [Ref 1]\<rparr>,
                  \<lparr>type = ALTERNATIVE, items = [Ref 2, Ref 3]\<rparr>,
                  \<lparr>type = GROUP, items = [Leaf (Word ''a'')]\<rparr>,
                  \<lparr>type = GROUP, items = [Leaf (Word ''b''), Leaf (Word ''c'')]\<rparr>]\<rparr>"
    by code_simp
  have t: "sentence_trees \<lparr>sentences = [0], sentence = None, sequences = [],
          heap = [\<lparr>type = GROUP, items = [Ref 1]\<rparr>,
                  \<lparr>type = ALTERNATIVE, items = [Ref 2, Ref 3]\<rparr>,
                  \<lparr>type = GROUP, items = [Leaf (Word ''a'')]\<rparr>,
                  \<lparr>type = GROUP, items = [Leaf (Word ''b''), Leaf (Word ''c'')]\<rparr>]\<rparr>
     = Some [Sequence GROUP [Sequence ALTERNATIVE
               [Sequence GROUP [Word ''a''], Sequence GROUP [Word ''b'', Word ''c'']]]]"
    by code_simp
  show ?thesis
    unfolding parse_sentences_walk[OF nb] using assms w t by simp
qed

theorem group_alternation_tree_witness:
  "(\<lambda>text. [[NGroup [NWord ''a''] [[NWord ''b'', NWord ''c'']]]]) (''(a | b c)'' @ [newline])
       = [[NGroup [NWord ''a''] [[NWord ''b'', NWord ''c'']]]] \<and>
   (\<exists>st. parse_sentences (\<lambda>text. [[NGroup [NWord ''a''] [[NWord ''b'', NWord ''c'']]]])
            [''(a | b c)''] init = Inr st \<and>
         sentence_trees st =
           Some [Sequence GROUP [Sequence ALTERNATIVE
                   [Sequence GROUP [Word ''a''], Sequence GROUP [Word ''b'', Word ''c'']]]])"
  using group_alternation_tree[of "\<lambda>text. [[NGroup [NWord ''a''] [[NWord ''b'', NWord ''c'']]]]"]
  by simp

text \<open>
  C3. For every text that is compiled and every optional span of its parse tree, the
  listener succeeds, the compiled trees are those of the sentences of the parse tree, and
  the tree of the optional span, which is an expression of the tree of its sentence, is an
  \<open>ALTERNATIVE\<close> whose last item is \<open>Word ""\<close>.
\<close>

theorem optional_span_tree:
  assumes "strip (join lines @ [newline]) \<noteq> []"
      and "ns \<in> set (document (join lines @ [newline]))"
      and "NOptional b bs \<in> set (concat (map spans ns))"
  shows "\<exists>st its.
           parse_sentences document lines init = Inr st \<and>
           sentence_trees st = Some (map sentence_tree (document (join lines @ [newline]))) \<and>
           sentence_tree ns \<in> set (map sentence_tree (document (join lines @ [newline]))) \<and>
           node_tree (NOptional b bs) = Sequence ALTERNATIVE (its @ [Word '''']) \<and>
           Sequence ALTERNATIVE (its @ [Word '''']) \<in> set (subtrees (sentence_tree ns))"
proof -
  from parse_sentences_init[OF assms(1)] obtain st where
    st: "parse_sentences document lines init = Inr st"
      "sentence_trees st = Some (map sentence_tree (document (join lines @ [newline])))"
    by blast
  obtain its where its: "node_tree (NOptional b bs) = Sequence ALTERNATIVE (its @ [Word ''''])"
    by (simp add: optional_tree_def)
  have "node_tree (NOptional b bs) \<in> set (subtrees (sentence_tree ns))"
    using assms(3) by (rule span_under_sentence)
  then show ?thesis using st its assms(2) by auto
qed

theorem optional_span_tree_witness:
  "strip (join [''turn on [the] light''] @ [newline]) \<noteq> [] \<and>
   [NWord ''turn'', NWord ''on'', NOptional [NWord ''the''] [], NWord ''light'']
     \<in> set ((\<lambda>text. [[NWord ''turn'', NWord ''on'', NOptional [NWord ''the''] [], NWord ''light'']])
              (join [''turn on [the] light''] @ [newline])) \<and>
   NOptional [NWord ''the''] []
     \<in> set (concat (map spans
          [NWord ''turn'', NWord ''on'', NOptional [NWord ''the''] [], NWord ''light''])) \<and>
   (\<exists>st its.
      parse_sentences
        (\<lambda>text. [[NWord ''turn'', NWord ''on'', NOptional [NWord ''the''] [], NWord ''light'']])
        [''turn on [the] light''] init = Inr st \<and>
      sentence_trees st =
        Some [Sequence GROUP [Word ''turn'', Word ''on'',
                Sequence ALTERNATIVE [Word ''the'', Word ''''], Word ''light'']] \<and>
      node_tree (NOptional [NWord ''the''] []) = Sequence ALTERNATIVE (its @ [Word '''']) \<and>
      Sequence ALTERNATIVE (its @ [Word ''''])
        \<in> set (subtrees (Sequence GROUP [Word ''turn'', Word ''on'',
                Sequence ALTERNATIVE [Word ''the'', Word ''''], Word ''light''])))"
proof -
  let ?ns = "[NWord ''turn'', NWord ''on'', NOptional [NWord ''the''] [], NWord ''light'']"
  have nb: "strip (join [''turn on [the] light''] @ [newline]) \<noteq> []" by code_simp
  have ns: "?ns \<in> set ((\<lambda>text. [?ns]) (join [''turn on [the] light''] @ [newline]))" by simp
  have sp: "NOptional [NWord ''the''] [] \<in> set (concat (map spans ?ns))" by simp
  have t: "sentence_tree ?ns = Sequence GROUP [Word ''turn'', Word ''on'',
                Sequence ALTERNATIVE [Word ''the'', Word ''''], Word ''light'']"
    by code_simp
  from optional_span_tree[OF nb ns sp] show ?thesis
    using nb sp unfolding t by auto
qed

text \<open>
  C4. Every \<open>ALTERNATIVE\<close> in a compiled sentence is the tree of a group or optional
  of the parse tree, with the items \<open>b\<close> before the first separator and the items
  \<open>bs\<close> after each separator, such that every branch of more than one element is one
  \<open>GROUP\<close> item of the \<open>ALTERNATIVE\<close>, and every item of the \<open>ALTERNATIVE\<close> is
  the empty word, the \<open>GROUP\<close> of a whole branch, or the only element of a branch.
\<close>

theorem alternative_items_whole_branches:
  assumes "parse_sentences document lines init = Inr st"
      and "sentence_trees st = Some trees" "t \<in> set trees"
      and "Sequence ALTERNATIVE its \<in> set (subtrees t)"
  shows "\<exists>s b bs.
           s \<in> set (concat (map spans (concat (document (join lines @ [newline]))))) \<and>
           (s = NGroup b bs \<or> s = NOptional b bs) \<and>
           node_tree s = Sequence ALTERNATIVE its \<and>
           (\<forall>c\<in>set (b # bs). length c > 1 \<longrightarrow> Sequence GROUP (map node_tree c) \<in> set its) \<and>
           (\<forall>x\<in>set its. x = Word '''' \<or>
              (\<exists>c\<in>set (b # bs). x = Sequence GROUP (map node_tree c) \<or> map node_tree c = [x]))"
proof (cases "strip (join lines @ [newline]) = []")
  case True
  then have "st = init" using assms(1) by (simp add: parse_sentences_def)
  then have "trees = []" using assms(2) sentence_trees_init by simp
  then show ?thesis using assms(3) by simp
next
  case False
  let ?d = "document (join lines @ [newline])"
  from parse_sentences_init[OF False, of document] assms(1,2)
  have "trees = map sentence_tree ?d" by auto
  then obtain ns where ns: "ns \<in> set ?d" and t: "t = sentence_tree ns"
    using assms(3) by auto
  from alternative_under_sentence[of its ns] assms(4) t obtain s where
    s: "s \<in> set (concat (map spans ns))" "node_tree s = Sequence ALTERNATIVE its" "scope s"
    by blast
  from scope_items[OF s(3,2)] obtain b bs where
    "s = NGroup b bs \<or> s = NOptional b bs"
    "\<forall>c\<in>set (b # bs). length c > 1 \<longrightarrow> Sequence GROUP (map node_tree c) \<in> set its"
    "\<forall>x\<in>set its. x = Word '''' \<or>
        (\<exists>c\<in>set (b # bs). x = Sequence GROUP (map node_tree c) \<or> map node_tree c = [x])"
    by blast
  moreover have "s \<in> set (concat (map spans (concat ?d)))" using s(1) ns by auto
  ultimately show ?thesis using s(2) by blast
qed

text \<open>The optional \<open>[a b]\<close>, whose two words are wrapped at the end of the optional.\<close>

theorem alternative_items_whole_branches_witness:
  "parse_sentences (\<lambda>text. [[NOptional [NWord ''a'', NWord ''b''] []]]) [''[a b]''] init =
     Inr \<lparr>sentences = [0], sentence = None, sequences = [],
          heap = [\<lparr>type = GROUP, items = [Ref 1]\<rparr>,
                  \<lparr>type = ALTERNATIVE, items = [Ref 2, Leaf (Word '''')]\<rparr>,
                  \<lparr>type = GROUP, items = [Leaf (Word ''a''), Leaf (Word ''b'')]\<rparr>]\<rparr> \<and>
   sentence_trees \<lparr>sentences = [0], sentence = None, sequences = [],
          heap = [\<lparr>type = GROUP, items = [Ref 1]\<rparr>,
                  \<lparr>type = ALTERNATIVE, items = [Ref 2, Leaf (Word '''')]\<rparr>,
                  \<lparr>type = GROUP, items = [Leaf (Word ''a''), Leaf (Word ''b'')]\<rparr>]\<rparr>
     = Some [Sequence GROUP
               [Sequence ALTERNATIVE [Sequence GROUP [Word ''a'', Word ''b''], Word '''']]] \<and>
   Sequence ALTERNATIVE [Sequence GROUP [Word ''a'', Word ''b''], Word '''']
     \<in> set (subtrees (Sequence GROUP
               [Sequence ALTERNATIVE [Sequence GROUP [Word ''a'', Word ''b''], Word '''']])) \<and>
   (\<exists>s b bs.
      s \<in> set (concat (map spans (concat [[NOptional [NWord ''a'', NWord ''b''] []]]))) \<and>
      (s = NGroup b bs \<or> s = NOptional b bs) \<and>
      node_tree s = Sequence ALTERNATIVE [Sequence GROUP [Word ''a'', Word ''b''], Word ''''] \<and>
      (\<forall>c\<in>set (b # bs). length c > 1 \<longrightarrow>
         Sequence GROUP (map node_tree c)
           \<in> set [Sequence GROUP [Word ''a'', Word ''b''], Word '''']) \<and>
      (\<forall>x\<in>set [Sequence GROUP [Word ''a'', Word ''b''], Word '''']. x = Word '''' \<or>
         (\<exists>c\<in>set (b # bs). x = Sequence GROUP (map node_tree c) \<or> map node_tree c = [x])))"
proof -
  let ?st = "\<lparr>sentences = [0], sentence = None, sequences = [],
          heap = [\<lparr>type = GROUP, items = [Ref 1]\<rparr>,
                  \<lparr>type = ALTERNATIVE, items = [Ref 2, Leaf (Word '''')]\<rparr>,
                  \<lparr>type = GROUP, items = [Leaf (Word ''a''), Leaf (Word ''b'')]\<rparr>]\<rparr>"
  let ?alt = "Sequence ALTERNATIVE [Sequence GROUP [Word ''a'', Word ''b''], Word '''']"
  have nb: "strip (join [''[a b]''] @ [newline]) \<noteq> []" by code_simp
  have w: "walk (document_events [[NOptional [NWord ''a'', NWord ''b''] []]]) init = Inr ?st"
    by code_simp
  have p: "parse_sentences (\<lambda>text. [[NOptional [NWord ''a'', NWord ''b''] []]]) [''[a b]''] init
             = Inr ?st"
    unfolding parse_sentences_walk[OF nb] using w by simp
  have t: "sentence_trees ?st = Some [Sequence GROUP [?alt]]" by code_simp
  have m: "Sequence GROUP [?alt] \<in> set [Sequence GROUP [?alt]]" by simp
  have u: "?alt \<in> set (subtrees (Sequence GROUP [?alt]))" by simp
  from alternative_items_whole_branches[OF p t m u] show ?thesis
    using p t u by simp
qed

text \<open>
  C5, as stated, fails: with a sentence open and no marker on the stack, the loop of
  \<open>last_parent_sequence\<close> runs to the bottom of the stack and returns the root of the
  sentence; the separator then turns the root into an \<open>ALTERNATIVE\<close> and the walk
  ends with a tree.
\<close>

theorem separator_outside_scope_counterexample:
  "sequences \<lparr>sentences = [], sentence = Some 0, sequences = [Some 0],
       heap = [\<lparr>type = GROUP, items = [Leaf (Word ''a'')]\<rparr>]\<rparr> = [Some 0] \<and>
   last_parent_sequence \<lparr>sentences = [], sentence = Some 0, sequences = [Some 0],
       heap = [\<lparr>type = GROUP, items = [Leaf (Word ''a'')]\<rparr>]\<rparr> = Inr 0 \<and>
   walk [EnterSentence, EnterWord ''a'', EnterAlt, EnterWord ''b'', ExitSentence] init =
     Inr \<lparr>sentences = [0], sentence = None, sequences = [],
          heap = [\<lparr>type = ALTERNATIVE, items = [Ref 1, Ref 2]\<rparr>,
                  \<lparr>type = GROUP, items = [Leaf (Word ''a'')]\<rparr>,
                  \<lparr>type = GROUP, items = [Leaf (Word ''b'')]\<rparr>]\<rparr> \<and>
   sentence_trees \<lparr>sentences = [0], sentence = None, sequences = [],
          heap = [\<lparr>type = ALTERNATIVE, items = [Ref 1, Ref 2]\<rparr>,
                  \<lparr>type = GROUP, items = [Leaf (Word ''a'')]\<rparr>,
                  \<lparr>type = GROUP, items = [Leaf (Word ''b'')]\<rparr>]\<rparr>
     = Some [Sequence ALTERNATIVE [Sequence GROUP [Word ''a''], Sequence GROUP [Word ''b'']]]"
  by code_simp

text \<open>
  C5, amended. If a separator arrives when the stack is empty, the lookup of the
  enclosing scope fails with an assertion error and the walk is aborted. When the stack
  is not empty and holds no marker, the lookup returns the bottom entry of the stack,
  the root of the open sentence, and the separator is handled exactly as inside a scope:
  the items of the root, when there are any and the root is not yet an \<open>ALTERNATIVE\<close>,
  move into one new \<open>GROUP\<close>; the root becomes an \<open>ALTERNATIVE\<close>; a new empty
  \<open>GROUP\<close> is appended to its items and pushed, so that it is the target of the next
  items; nothing else in the store changes. A sentence whose separators lie outside any
  group or optional is walked to the end and its tree is an \<open>ALTERNATIVE\<close> whose items
  are the \<open>GROUP\<close>s of its branches.
\<close>

theorem last_parent_sequence_cases:
  "(sequences st = [] \<longrightarrow>
      last_parent_sequence st = Inl (AssertionError ''No target sequence'') \<and>
      walk (EnterAlt # es) st = Inl (AssertionError ''No target sequence'')) \<and>
   (sequences st = map Some cs \<and> cs \<noteq> [] \<longrightarrow>
      last_parent_sequence st = Inr (last cs) \<and> (\<exists>st'. enterAlt st = Inr st')) \<and>
   (sequences st = map Some cs \<and> cs \<noteq> [] \<and> last cs < length (heap st) \<longrightarrow>
      (let s = last cs; h = heap st; n = length h; its = items (h ! s);
           wrap = (type (h ! s) \<noteq> ALTERNATIVE \<and> its \<noteq> []);
           next_group = (if wrap then Suc n else n)
       in \<exists>st'. enterAlt st = Inr st' \<and>
            sequences st' = Some next_group # sequences st \<and>
            last_sequence st' = Inr next_group \<and>
            sentences st' = sentences st \<and> sentence st' = sentence st \<and>
            length (heap st') = Suc next_group \<and>
            heap st' ! next_group = \<lparr>type = GROUP, items = []\<rparr> \<and>
            heap st' ! s =
              \<lparr>type = ALTERNATIVE, items = (if wrap then [Ref n] else its) @ [Ref next_group]\<rparr> \<and>
            (if wrap then heap st' ! n = \<lparr>type = GROUP, items = its\<rparr> else True) \<and>
            (\<forall>i<n. i \<noteq> s \<longrightarrow> heap st' ! i = h ! i))) \<and>
   (sentence_trees st = Some old \<and> bs \<noteq> [] \<longrightarrow>
      (\<exists>st'. walk (EnterSentence # (concat (map node_events b)
                 @ concat (map (\<lambda>c. EnterAlt # concat (map node_events c)) bs))
                 @ [ExitSentence]) st = Inr st' \<and>
         sentences st' = sentences st @ [length (heap st)] \<and>
         sentence st' = None \<and> sequences st' = [] \<and>
         sentence_trees st' =
           Some (old @ [Sequence ALTERNATIVE
                          (alternatives (map node_tree b) (map (map node_tree) bs))])))"
proof -
  have empty: "sequences st = [] \<longrightarrow>
      last_parent_sequence st = Inl (AssertionError ''No target sequence'') \<and>
      walk (EnterAlt # es) st = Inl (AssertionError ''No target sequence'')"
    by (simp add: last_parent_sequence_def enterAlt_def)
  have lookup: "sequences st = map Some cs \<and> cs \<noteq> [] \<longrightarrow>
      last_parent_sequence st = Inr (last cs) \<and> (\<exists>st'. enterAlt st = Inr st')"
    by (auto simp: last_parent_sequence_def enterAlt_def parent_scan_no_marker Let_def
        split: prod.splits)
  have effect: "sequences st = map Some cs \<and> cs \<noteq> [] \<and> last cs < length (heap st) \<longrightarrow>
      (let s = last cs; h = heap st; n = length h; its = items (h ! s);
           wrap = (type (h ! s) \<noteq> ALTERNATIVE \<and> its \<noteq> []);
           next_group = (if wrap then Suc n else n)
       in \<exists>st'. enterAlt st = Inr st' \<and>
            sequences st' = Some next_group # sequences st \<and>
            last_sequence st' = Inr next_group \<and>
            sentences st' = sentences st \<and> sentence st' = sentence st \<and>
            length (heap st') = Suc next_group \<and>
            heap st' ! next_group = \<lparr>type = GROUP, items = []\<rparr> \<and>
            heap st' ! s =
              \<lparr>type = ALTERNATIVE, items = (if wrap then [Ref n] else its) @ [Ref next_group]\<rparr> \<and>
            (if wrap then heap st' ! n = \<lparr>type = GROUP, items = its\<rparr> else True) \<and>
            (\<forall>i<n. i \<noteq> s \<longrightarrow> heap st' ! i = h ! i))"
  proof (intro impI)
    assume a: "sequences st = map Some cs \<and> cs \<noteq> [] \<and> last cs < length (heap st)"
    then have q: "sequences st = map Some cs @ []" "cs \<noteq> []" "last cs < length (heap st)"
      by simp_all
    show "let s = last cs; h = heap st; n = length h; its = items (h ! s);
           wrap = (type (h ! s) \<noteq> ALTERNATIVE \<and> its \<noteq> []);
           next_group = (if wrap then Suc n else n)
       in \<exists>st'. enterAlt st = Inr st' \<and>
            sequences st' = Some next_group # sequences st \<and>
            last_sequence st' = Inr next_group \<and>
            sentences st' = sentences st \<and> sentence st' = sentence st \<and>
            length (heap st') = Suc next_group \<and>
            heap st' ! next_group = \<lparr>type = GROUP, items = []\<rparr> \<and>
            heap st' ! s =
              \<lparr>type = ALTERNATIVE, items = (if wrap then [Ref n] else its) @ [Ref next_group]\<rparr> \<and>
            (if wrap then heap st' ! n = \<lparr>type = GROUP, items = its\<rparr> else True) \<and>
            (\<forall>i<n. i \<noteq> s \<longrightarrow> heap st' ! i = h ! i)"
    proof (cases "type (heap st ! last cs)")
      case ALTERNATIVE
      show ?thesis
        using enterAlt_alternative[OF q ALTERNATIVE bottom_Nil] q ALTERNATIVE
        by (cases "heap st ! last cs")
           (simp add: Let_def last_sequence_def nth_append nth_list_update)
    next
      case GROUP
      show ?thesis
      proof (cases "items (heap st ! last cs) = []")
        case True
        show ?thesis
          using enterAlt_group_empty[OF q GROUP True bottom_Nil] q GROUP True
          by (simp add: Let_def last_sequence_def nth_append nth_list_update)
      next
        case False
        show ?thesis
          using enterAlt_group_items[OF q GROUP False bottom_Nil] q GROUP False
          by (simp add: Let_def last_sequence_def nth_append nth_list_update)
      qed
    qed
  qed
  have tree: "sentence_trees st = Some old \<and> bs \<noteq> [] \<longrightarrow>
      (\<exists>st'. walk (EnterSentence # (concat (map node_events b)
                 @ concat (map (\<lambda>c. EnterAlt # concat (map node_events c)) bs))
                 @ [ExitSentence]) st = Inr st' \<and>
         sentences st' = sentences st @ [length (heap st)] \<and>
         sentence st' = None \<and> sequences st' = [] \<and>
         sentence_trees st' =
           Some (old @ [Sequence ALTERNATIVE
                          (alternatives (map node_tree b) (map (map node_tree) bs))]))"
  proof (intro impI)
    assume a: "sentence_trees st = Some old \<and> bs \<noteq> []"
    then have "group_tree (map node_tree b) (map (map node_tree) bs)
        = Sequence ALTERNATIVE (alternatives (map node_tree b) (map (map node_tree) bs))"
      by (simp add: group_tree_def)
    then show "\<exists>st'. walk (EnterSentence # (concat (map node_events b)
                 @ concat (map (\<lambda>c. EnterAlt # concat (map node_events c)) bs))
                 @ [ExitSentence]) st = Inr st' \<and>
         sentences st' = sentences st @ [length (heap st)] \<and>
         sentence st' = None \<and> sequences st' = [] \<and>
         sentence_trees st' =
           Some (old @ [Sequence ALTERNATIVE
                          (alternatives (map node_tree b) (map (map node_tree) bs))])"
      using sentence_trees_alts[of st old b bs] a by simp
  qed
  show ?thesis
    by (intro conjI empty lookup effect tree)
qed

text \<open>
  A new listener; the listener after the first word of an open sentence; and the
  sentence \<open>a | b\<close>.
\<close>

theorem last_parent_sequence_cases_witness:
  "sequences init = [] \<and>
   last_parent_sequence init = Inl (AssertionError ''No target sequence'') \<and>
   walk (EnterAlt # [EnterWord ''b'']) init = Inl (AssertionError ''No target sequence'') \<and>
   sequences \<lparr>sentences = [], sentence = Some 0, sequences = [Some 0],
       heap = [\<lparr>type = GROUP, items = [Leaf (Word ''a'')]\<rparr>]\<rparr> = map Some [0] \<and>
   last [0] < length (heap \<lparr>sentences = [], sentence = Some 0, sequences = [Some 0],
       heap = [\<lparr>type = GROUP, items = [Leaf (Word ''a'')]\<rparr>]\<rparr>) \<and>
   last_parent_sequence \<lparr>sentences = [], sentence = Some 0, sequences = [Some 0],
       heap = [\<lparr>type = GROUP, items = [Leaf (Word ''a'')]\<rparr>]\<rparr> = Inr (last [0]) \<and>
   enterAlt \<lparr>sentences = [], sentence = Some 0, sequences = [Some 0],
       heap = [\<lparr>type = GROUP, items = [Leaf (Word ''a'')]\<rparr>]\<rparr>
     = Inr \<lparr>sentences = [], sentence = Some 0, sequences = [Some 2, Some 0],
          heap = [\<lparr>type = ALTERNATIVE, items = [Ref 1, Ref 2]\<rparr>,
                  \<lparr>type = GROUP, items = [Leaf (Word ''a'')]\<rparr>,
                  \<lparr>type = GROUP, items = []\<rparr>]\<rparr> \<and>
   sentence_trees init = Some [] \<and>
   (\<exists>st'. walk (EnterSentence # (concat (map node_events [NWord ''a''])
              @ concat (map (\<lambda>c. EnterAlt # concat (map node_events c)) [[NWord ''b'']]))
              @ [ExitSentence]) init = Inr st' \<and>
      sentence_trees st' =
        Some [Sequence ALTERNATIVE [Sequence GROUP [Word ''a''], Sequence GROUP [Word ''b'']]])"
proof -
  let ?mid = "\<lparr>sentences = [], sentence = Some 0, sequences = [Some 0],
       heap = [\<lparr>type = GROUP, items = [Leaf (Word ''a'')]\<rparr>]\<rparr>"
  have e: "enterAlt ?mid
     = Inr \<lparr>sentences = [], sentence = Some 0, sequences = [Some 2, Some 0],
          heap = [\<lparr>type = ALTERNATIVE, items = [Ref 1, Ref 2]\<rparr>,
                  \<lparr>type = GROUP, items = [Leaf (Word ''a'')]\<rparr>,
                  \<lparr>type = GROUP, items = []\<rparr>]\<rparr>"
    by code_simp
  have t: "alternatives (map node_tree [NWord ''a'']) (map (map node_tree) [[NWord ''b'']])
             = [Sequence GROUP [Word ''a''], Sequence GROUP [Word ''b'']]"
    by code_simp
  note at_init = last_parent_sequence_cases[where st = init and es = "[EnterWord ''b'']"
      and cs = "[]" and old = "[]" and bs = "[[NWord ''b'']]" and b = "[NWord ''a'']"]
  note at_mid = last_parent_sequence_cases[where st = ?mid and cs = "[0]"]
  have i: "sequences init = []"
    by (simp add: init_def)
  have m: "sequences ?mid = map Some [0]" "last [0] < length (heap ?mid)"
    by simp_all
  have a: "last_parent_sequence init = Inl (AssertionError ''No target sequence'')"
    "walk (EnterAlt # [EnterWord ''b'']) init = Inl (AssertionError ''No target sequence'')"
    using at_init i by blast+
  have l: "last_parent_sequence ?mid = Inr (last [0])"
    using at_mid m by blast
  have w: "\<exists>st'. walk (EnterSentence # (concat (map node_events [NWord ''a''])
              @ concat (map (\<lambda>c. EnterAlt # concat (map node_events c)) [[NWord ''b'']]))
              @ [ExitSentence]) init = Inr st' \<and>
      sentence_trees st' =
        Some [Sequence ALTERNATIVE [Sequence GROUP [Word ''a''], Sequence GROUP [Word ''b'']]]"
    using at_init sentence_trees_init unfolding t by auto
  show ?thesis
    by (intro conjI i a m l e sentence_trees_init w)
qed

text \<open>
  C6. The classification is made on the whole text after \<open>strip\<close>,
  \<open>remove_escapes\<close> and \<open>remove_quotes\<close>, in this order, the integer pattern first,
  then the range pattern, then the word. The five tokens of the claim classify as stated.
  Whitespace around a token is dropped before the classification: padded digits give a
  \<open>Number\<close>, a padded range gives a \<open>NumberRange\<close>, a padded word gives the word
  without the padding, and in general padding never changes the item. Escapes are removed
  before the classification: an escaped digit gives a \<open>Number\<close>, a range with an
  escaped dot gives a \<open>NumberRange\<close>, an escaped bar gives the bar in the word; a
  space that is escaped is not stripped, and escaped quotes around a text are removed as
  quotes, since the escapes go first. A text that matches the integer pattern gives a
  \<open>Number\<close> and never a \<open>Word\<close>; a text that matches the range pattern and not the
  integer pattern gives one \<open>NumberRange\<close>; any other text gives the \<open>Word\<close> of the
  cleaned text. Digits, padded or not, give the \<open>Number\<close> of their value; digits,
  \<open>..\<close> and digits give one \<open>NumberRange\<close> of step 1, and with \<open>..\<close> and digits
  more, the \<open>NumberRange\<close> of that step. \<open>enterWord\<close> appends exactly one item to
  the target. The patterns and the two text functions are modelled from the spec.
\<close>

theorem word_item_order:
  "word_item ''5'' = Number 5 \<and>
   word_item ''1..10'' = NumberRange 1 10 1 \<and>
   word_item ''1..10..2'' = NumberRange 1 10 2 \<and>
   word_item ''hello'' = Word ''hello'' \<and>
   word_item [CHR 0x22, CHR ''a'', CHR '' '', CHR ''b'', CHR 0x22] = Word ''a b'' \<and>
   word_item '' 5 '' = Number 5 \<and>
   word_item [CHR 0x09, CHR ''1'', CHR ''.'', CHR ''.'', CHR ''1'', CHR ''0'', CHR 0x0A]
     = NumberRange 1 10 1 \<and>
   word_item ''  hello '' = Word ''hello'' \<and>
   word_item [CHR 0x5C, CHR ''5''] = Number 5 \<and>
   word_item [CHR ''1'', CHR 0x5C, CHR ''.'', CHR ''.'', CHR ''1'', CHR ''0'']
     = NumberRange 1 10 1 \<and>
   word_item [CHR ''a'', CHR 0x5C, CHR ''|'', CHR ''b''] = Word ''a|b'' \<and>
   word_item [CHR 0x5C, CHR 0x22, CHR ''a'', CHR 0x5C, CHR 0x22] = Word ''a'' \<and>
   word_item [CHR '' '', CHR 0x5C, CHR '' '', CHR ''a''] = Word '' a'' \<and>
   (NUMBER_PATTERN (remove_quotes (remove_escapes (strip raw))) \<noteq> None \<longrightarrow>
      (\<exists>n. word_item raw = Number n) \<and> (\<forall>w. word_item raw \<noteq> Word w)) \<and>
   (NUMBER_PATTERN (remove_quotes (remove_escapes (strip raw))) = None \<and>
    NUMBER_RANGE_PATTERN (remove_quotes (remove_escapes (strip raw))) \<noteq> None \<longrightarrow>
      (\<exists>l u s. word_item raw = NumberRange l u s)) \<and>
   (NUMBER_PATTERN (remove_quotes (remove_escapes (strip raw))) = None \<and>
    NUMBER_RANGE_PATTERN (remove_quotes (remove_escapes (strip raw))) = None \<longrightarrow>
      word_item raw = Word (remove_quotes (remove_escapes (strip raw)))) \<and>
   (list_all whitespace pre \<and> list_all whitespace post \<longrightarrow>
      word_item (pre @ raw @ post) = word_item raw) \<and>
   (list_all whitespace pre \<and> list_all whitespace post \<and> ds \<noteq> [] \<and> list_all digit ds \<longrightarrow>
      word_item (pre @ ds @ post) = Number (digits_value ds)) \<and>
   (list_all whitespace pre \<and> list_all whitespace post \<and>
    lo \<noteq> [] \<and> list_all digit lo \<and> up \<noteq> [] \<and> list_all digit up \<longrightarrow>
      word_item (pre @ (lo @ ''..'' @ up) @ post)
        = NumberRange (digits_value lo) (digits_value up) 1) \<and>
   (list_all whitespace pre \<and> list_all whitespace post \<and>
    lo \<noteq> [] \<and> list_all digit lo \<and> up \<noteq> [] \<and> list_all digit up \<and>
    step \<noteq> [] \<and> list_all digit step \<longrightarrow>
      word_item (pre @ (lo @ ''..'' @ up @ ''..'' @ step) @ post)
        = NumberRange (digits_value lo) (digits_value up) (digits_value step)) \<and>
   (sequences st = Some a # stk \<and> a < length (heap st) \<longrightarrow>
      (\<exists>st'. enterWord raw st = Inr st' \<and> sequences st' = sequences st \<and>
         length (heap st') = length (heap st) \<and>
         items (heap st' ! a) = items (heap st ! a) @ [Leaf (word_item raw)]))"
proof -
  have ex: "word_item ''5'' = Number 5" "word_item ''1..10'' = NumberRange 1 10 1"
    "word_item ''1..10..2'' = NumberRange 1 10 2" "word_item ''hello'' = Word ''hello''"
    "word_item [CHR 0x22, CHR ''a'', CHR '' '', CHR ''b'', CHR 0x22] = Word ''a b''"
    by code_simp+
  have pad: "word_item '' 5 '' = Number 5"
    "word_item [CHR 0x09, CHR ''1'', CHR ''.'', CHR ''.'', CHR ''1'', CHR ''0'', CHR 0x0A]
       = NumberRange 1 10 1"
    "word_item ''  hello '' = Word ''hello''"
    by code_simp+
  have esc: "word_item [CHR 0x5C, CHR ''5''] = Number 5"
    "word_item [CHR ''1'', CHR 0x5C, CHR ''.'', CHR ''.'', CHR ''1'', CHR ''0'']
       = NumberRange 1 10 1"
    "word_item [CHR ''a'', CHR 0x5C, CHR ''|'', CHR ''b''] = Word ''a|b''"
    "word_item [CHR 0x5C, CHR 0x22, CHR ''a'', CHR 0x5C, CHR 0x22] = Word ''a''"
    "word_item [CHR '' '', CHR 0x5C, CHR '' '', CHR ''a''] = Word '' a''"
    by code_simp+
  have gen1: "NUMBER_PATTERN (remove_quotes (remove_escapes (strip raw))) \<noteq> None \<longrightarrow>
      (\<exists>n. word_item raw = Number n) \<and> (\<forall>w. word_item raw \<noteq> Word w)"
    by (auto simp: word_item_def Let_def split: option.splits prod.splits)
  have gen2: "NUMBER_PATTERN (remove_quotes (remove_escapes (strip raw))) = None \<and>
    NUMBER_RANGE_PATTERN (remove_quotes (remove_escapes (strip raw))) \<noteq> None \<longrightarrow>
      (\<exists>l u s. word_item raw = NumberRange l u s)"
    by (auto simp: word_item_def Let_def split: option.splits prod.splits)
  have gen3: "NUMBER_PATTERN (remove_quotes (remove_escapes (strip raw))) = None \<and>
    NUMBER_RANGE_PATTERN (remove_quotes (remove_escapes (strip raw))) = None \<longrightarrow>
      word_item raw = Word (remove_quotes (remove_escapes (strip raw)))"
    by (auto simp: word_item_def Let_def split: option.splits prod.splits)
  have p1: "list_all whitespace pre \<and> list_all whitespace post \<longrightarrow>
      word_item (pre @ raw @ post) = word_item raw"
    using word_item_pad by blast
  have p2: "list_all whitespace pre \<and> list_all whitespace post \<and> ds \<noteq> [] \<and> list_all digit ds \<longrightarrow>
      word_item (pre @ ds @ post) = Number (digits_value ds)"
  proof (intro impI)
    assume h: "list_all whitespace pre \<and> list_all whitespace post \<and> ds \<noteq> [] \<and> list_all digit ds"
    then have a: "list_all whitespace pre" "list_all whitespace post"
      and b: "ds \<noteq> []" "list_all digit ds"
      by blast+
    show "word_item (pre @ ds @ post) = Number (digits_value ds)"
      unfolding word_item_pad[OF a] by (rule word_item_digits[OF b])
  qed
  have p3: "list_all whitespace pre \<and> list_all whitespace post \<and>
    lo \<noteq> [] \<and> list_all digit lo \<and> up \<noteq> [] \<and> list_all digit up \<longrightarrow>
      word_item (pre @ (lo @ ''..'' @ up) @ post)
        = NumberRange (digits_value lo) (digits_value up) 1"
  proof (intro impI)
    assume h: "list_all whitespace pre \<and> list_all whitespace post \<and>
      lo \<noteq> [] \<and> list_all digit lo \<and> up \<noteq> [] \<and> list_all digit up"
    then have a: "list_all whitespace pre" "list_all whitespace post"
      and b: "lo \<noteq> []" "list_all digit lo" "up \<noteq> []" "list_all digit up"
      by blast+
    show "word_item (pre @ (lo @ ''..'' @ up) @ post)
        = NumberRange (digits_value lo) (digits_value up) 1"
      unfolding word_item_pad[OF a] by (rule word_item_range_two[OF b])
  qed
  have p4: "list_all whitespace pre \<and> list_all whitespace post \<and>
    lo \<noteq> [] \<and> list_all digit lo \<and> up \<noteq> [] \<and> list_all digit up \<and>
    step \<noteq> [] \<and> list_all digit step \<longrightarrow>
      word_item (pre @ (lo @ ''..'' @ up @ ''..'' @ step) @ post)
        = NumberRange (digits_value lo) (digits_value up) (digits_value step)"
  proof (intro impI)
    assume h: "list_all whitespace pre \<and> list_all whitespace post \<and>
      lo \<noteq> [] \<and> list_all digit lo \<and> up \<noteq> [] \<and> list_all digit up \<and>
      step \<noteq> [] \<and> list_all digit step"
    then have a: "list_all whitespace pre" "list_all whitespace post"
      and b: "lo \<noteq> []" "list_all digit lo" "up \<noteq> []" "list_all digit up"
        "step \<noteq> []" "list_all digit step"
      by blast+
    show "word_item (pre @ (lo @ ''..'' @ up @ ''..'' @ step) @ post)
        = NumberRange (digits_value lo) (digits_value up) (digits_value step)"
      unfolding word_item_pad[OF a] by (rule word_item_range_three[OF b])
  qed
  have app: "sequences st = Some a # stk \<and> a < length (heap st) \<longrightarrow>
      (\<exists>st'. enterWord raw st = Inr st' \<and> sequences st' = sequences st \<and>
         length (heap st') = length (heap st) \<and>
         items (heap st' ! a) = items (heap st ! a) @ [Leaf (word_item raw)])"
    by (simp add: enterWord_def append_leaf_def last_sequence_def append_item_def)
  show ?thesis
    by (intro conjI ex pad esc gen1 gen2 gen3 p1 p2 p3 p4 app)
qed

text \<open>
  The tokens \<open>5\<close>, \<open>1..10\<close> and \<open>hello\<close>, the padding of one space, and the listener
  after the first word of an open sentence.
\<close>

theorem word_item_order_witness:
  "NUMBER_PATTERN (remove_quotes (remove_escapes (strip ''5''))) \<noteq> None \<and>
   word_item ''5'' = Number 5 \<and>
   NUMBER_PATTERN (remove_quotes (remove_escapes (strip ''1..10''))) = None \<and>
   NUMBER_RANGE_PATTERN (remove_quotes (remove_escapes (strip ''1..10''))) \<noteq> None \<and>
   word_item ''1..10'' = NumberRange 1 10 1 \<and>
   NUMBER_PATTERN (remove_quotes (remove_escapes (strip ''hello''))) = None \<and>
   NUMBER_RANGE_PATTERN (remove_quotes (remove_escapes (strip ''hello''))) = None \<and>
   word_item ''hello'' = Word ''hello'' \<and>
   list_all whitespace '' '' \<and> list_all digit ''1'' \<and> list_all digit ''10'' \<and>
   list_all digit ''2'' \<and>
   word_item ('' '' @ ''hello'' @ '' '') = word_item ''hello'' \<and>
   word_item ('' '' @ ''10'' @ '' '') = Number 10 \<and>
   word_item ('' '' @ (''1'' @ ''..'' @ ''10'') @ '' '') = NumberRange 1 10 1 \<and>
   word_item ('' '' @ (''1'' @ ''..'' @ ''10'' @ ''..'' @ ''2'') @ '' '') = NumberRange 1 10 2 \<and>
   sequences \<lparr>sentences = [], sentence = Some 0, sequences = [Some 0],
       heap = [\<lparr>type = GROUP, items = [Leaf (Word ''a'')]\<rparr>]\<rparr> = Some 0 # [] \<and>
   enterWord ''1..10'' \<lparr>sentences = [], sentence = Some 0, sequences = [Some 0],
       heap = [\<lparr>type = GROUP, items = [Leaf (Word ''a'')]\<rparr>]\<rparr>
     = Inr \<lparr>sentences = [], sentence = Some 0, sequences = [Some 0],
          heap = [\<lparr>type = GROUP, items = [Leaf (Word ''a''), Leaf (NumberRange 1 10 1)]\<rparr>]\<rparr>"
proof -
  have p: "NUMBER_PATTERN (remove_quotes (remove_escapes (strip ''5''))) \<noteq> None"
    "NUMBER_PATTERN (remove_quotes (remove_escapes (strip ''1..10''))) = None"
    "NUMBER_RANGE_PATTERN (remove_quotes (remove_escapes (strip ''1..10''))) \<noteq> None"
    "NUMBER_PATTERN (remove_quotes (remove_escapes (strip ''hello''))) = None"
    "NUMBER_RANGE_PATTERN (remove_quotes (remove_escapes (strip ''hello''))) = None"
    by code_simp+
  have w: "list_all whitespace '' ''" "list_all digit ''1''" "list_all digit ''10''"
    "list_all digit ''2''"
    by code_simp+
  have v: "digits_value ''1'' = 1" "digits_value ''10'' = 10" "digits_value ''2'' = 2"
    by code_simp+
  have ne: "''10'' \<noteq> []" "''1'' \<noteq> []" "''2'' \<noteq> []"
    by simp_all
  have e: "enterWord ''1..10'' \<lparr>sentences = [], sentence = Some 0, sequences = [Some 0],
       heap = [\<lparr>type = GROUP, items = [Leaf (Word ''a'')]\<rparr>]\<rparr>
     = Inr \<lparr>sentences = [], sentence = Some 0, sequences = [Some 0],
          heap = [\<lparr>type = GROUP, items = [Leaf (Word ''a''), Leaf (NumberRange 1 10 1)]\<rparr>]\<rparr>"
    by code_simp
  have s0: "sequences \<lparr>sentences = [], sentence = Some 0, sequences = [Some 0],
       heap = [\<lparr>type = GROUP, items = [Leaf (Word ''a'')]\<rparr>]\<rparr> = Some 0 # []"
    by simp
  note t = word_item_order[where raw = "''hello''" and pre = "'' ''" and post = "'' ''"
      and ds = "''10''" and lo = "''1''" and up = "''10''" and step = "''2''"
      and st = init and a = 0 and stk = "[]"]
  have x: "word_item ''5'' = Number 5" "word_item ''1..10'' = NumberRange 1 10 1"
    "word_item ''hello'' = Word ''hello''"
    using t by blast+
  have pad1: "word_item ('' '' @ ''hello'' @ '' '') = word_item ''hello''"
    using t w by blast
  have pad2: "word_item ('' '' @ ''10'' @ '' '') = Number 10"
    using t w ne unfolding v[symmetric] by blast
  have pad3: "word_item ('' '' @ (''1'' @ ''..'' @ ''10'') @ '' '') = NumberRange 1 10 1"
    using t w ne unfolding v[symmetric] by blast
  have pad4: "word_item ('' '' @ (''1'' @ ''..'' @ ''10'' @ ''..'' @ ''2'') @ '' '')
      = NumberRange 1 10 2"
    using t w ne unfolding v[symmetric] by blast
  show ?thesis
    by (intro conjI p w x pad1 pad2 pad3 pad4 s0 e)
qed

text \<open>
  C7. For the lines \<open>a\<close> and \<open>b\<close> the result is two sentences in input order; for
  every text that is compiled the result is one tree for each sentence of the parse
  tree, in order; and when every line is blank (this includes no line at all) the
  listener is left as it was, so that a new listener holds no sentence.
\<close>

theorem parse_sentences_lines:
  "(document (''a'' @ [newline] @ ''b'' @ [newline]) = [[NWord ''a''], [NWord ''b'']] \<longrightarrow>
      (\<exists>st. parse_sentences document [''a'', ''b''] init = Inr st \<and>
         sentence_trees st = Some [Sequence GROUP [Word ''a''], Sequence GROUP [Word ''b'']])) \<and>
   (strip (join lines @ [newline]) \<noteq> [] \<longrightarrow>
      (\<exists>st. parse_sentences document lines init = Inr st \<and>
         sentence_trees st = Some (map sentence_tree (document (join lines @ [newline]))))) \<and>
   ((\<forall>l\<in>set lines. list_all whitespace l) \<longrightarrow>
      parse_sentences document lines st = Inr st \<and>
      parse_sentences document lines init = Inr init \<and> sentence_trees init = Some [])"
proof (intro conjI impI)
  assume d: "document (''a'' @ [newline] @ ''b'' @ [newline]) = [[NWord ''a''], [NWord ''b'']]"
  have nb: "strip (join [''a'', ''b''] @ [newline]) \<noteq> []" by code_simp
  have t: "map sentence_tree [[NWord ''a''], [NWord ''b'']]
             = [Sequence GROUP [Word ''a''], Sequence GROUP [Word ''b'']]"
    by code_simp
  from sentence_trees_document[OF sentence_trees_init, of "[[NWord ''a''], [NWord ''b'']]"]
  show "\<exists>st. parse_sentences document [''a'', ''b''] init = Inr st \<and>
         sentence_trees st = Some [Sequence GROUP [Word ''a''], Sequence GROUP [Word ''b'']]"
    unfolding parse_sentences_walk[OF nb] t using d by auto
next
  assume nb: "strip (join lines @ [newline]) \<noteq> []"
  from sentence_trees_document[OF sentence_trees_init, of "document (join lines @ [newline])"]
  show "\<exists>st. parse_sentences document lines init = Inr st \<and>
         sentence_trees st = Some (map sentence_tree (document (join lines @ [newline])))"
    unfolding parse_sentences_walk[OF nb] by auto
next
  assume "\<forall>l\<in>set lines. list_all whitespace l"
  then show "parse_sentences document lines st = Inr st"
    "parse_sentences document lines init = Inr init"
    by (rule parse_sentences_blank)+
next
  show "sentence_trees init = Some []" by (rule sentence_trees_init)
qed

theorem parse_sentences_lines_witness:
  "(\<lambda>text. [[NWord ''a''], [NWord ''b'']]) (''a'' @ [newline] @ ''b'' @ [newline])
     = [[NWord ''a''], [NWord ''b'']] \<and>
   strip (join [''a'', ''b''] @ [newline]) \<noteq> [] \<and>
   (\<exists>st. parse_sentences (\<lambda>text. [[NWord ''a''], [NWord ''b'']]) [''a'', ''b''] init = Inr st \<and>
      sentence_trees st = Some [Sequence GROUP [Word ''a''], Sequence GROUP [Word ''b'']]) \<and>
   list_all whitespace '''' \<and> list_all whitespace ''  '' \<and>
   parse_sentences (\<lambda>text. [[NWord ''a''], [NWord ''b'']]) ['''', ''  ''] init = Inr init \<and>
   parse_sentences (\<lambda>text. [[NWord ''a''], [NWord ''b'']]) [] init = Inr init \<and>
   sentence_trees init = Some []"
proof -
  have nb: "strip (join [''a'', ''b''] @ [newline]) \<noteq> []" by code_simp
  have ws: "list_all whitespace ''''" "list_all whitespace ''  ''" by code_simp+
  show ?thesis
    using parse_sentences_lines[of "\<lambda>text. [[NWord ''a''], [NWord ''b'']]" "[''a'', ''b'']" init]
      parse_sentences_lines[of "\<lambda>text. [[NWord ''a''], [NWord ''b'']]" "['''', ''  '']" init]
      parse_sentences_lines[of "\<lambda>text. [[NWord ''a''], [NWord ''b'']]" "[]" init]
      nb ws
    by simp
qed

text \<open>
  C8, as stated, fails: in the root of \<open>turn on [the] light\<close> the second item is
  \<open>Word "on"\<close>; the \<open>ALTERNATIVE\<close> of the optional follows the two words and is the
  third item.
\<close>

theorem optional_position_counterexample:
  "walk (document_events
           [[NWord ''turn'', NWord ''on'', NOptional [NWord ''the''] [], NWord ''light'']]) init =
     Inr \<lparr>sentences = [0], sentence = None, sequences = [],
          heap = [\<lparr>type = GROUP,
                    items = [Leaf (Word ''turn''), Leaf (Word ''on''), Ref 1, Leaf (Word ''light'')]\<rparr>,
                  \<lparr>type = ALTERNATIVE, items = [Leaf (Word ''the''), Leaf (Word '''')]\<rparr>]\<rparr> \<and>
   sentence_trees \<lparr>sentences = [0], sentence = None, sequences = [],
          heap = [\<lparr>type = GROUP,
                    items = [Leaf (Word ''turn''), Leaf (Word ''on''), Ref 1, Leaf (Word ''light'')]\<rparr>,
                  \<lparr>type = ALTERNATIVE, items = [Leaf (Word ''the''), Leaf (Word '''')]\<rparr>]\<rparr>
     = Some [Sequence GROUP
               [Word ''turn'', Word ''on'', Sequence ALTERNATIVE [Word ''the'', Word ''''],
                Word ''light'']] \<and>
   [Word ''turn'', Word ''on'', Sequence ALTERNATIVE [Word ''the'', Word ''''], Word ''light''] ! 1
     = Word ''on'' \<and>
   Word ''on'' \<noteq> Sequence ALTERNATIVE [Word ''the'', Word '''']"
  by code_simp

text \<open>
  C8, amended. Compiling the single template \<open>turn on [the] light\<close> yields one sentence
  whose root is a \<open>GROUP\<close> of exactly 4 items, where the third item is an
  \<open>ALTERNATIVE\<close> whose items are exactly \<open>Word "the"\<close> and \<open>Word ""\<close>.
\<close>

theorem optional_position:
  assumes "document (''turn on [the] light'' @ [newline])
             = [[NWord ''turn'', NWord ''on'', NOptional [NWord ''the''] [], NWord ''light'']]"
  shows "\<exists>st its. parse_sentences document [''turn on [the] light''] init = Inr st \<and>
           sentence_trees st = Some [Sequence GROUP its] \<and> length its = 4 \<and>
           its ! 2 = Sequence ALTERNATIVE [Word ''the'', Word '''']"
proof -
  have nb: "strip (join [''turn on [the] light''] @ [newline]) \<noteq> []" by code_simp
  have w: "walk (document_events
           [[NWord ''turn'', NWord ''on'', NOptional [NWord ''the''] [], NWord ''light'']]) init =
     Inr \<lparr>sentences = [0], sentence = None, sequences = [],
          heap = [\<lparr>type = GROUP,
                    items = [Leaf (Word ''turn''), Leaf (Word ''on''), Ref 1, Leaf (Word ''light'')]\<rparr>,
                  \<lparr>type = ALTERNATIVE, items = [Leaf (Word ''the''), Leaf (Word '''')]\<rparr>]\<rparr>"
    by code_simp
  have t: "sentence_trees \<lparr>sentences = [0], sentence = None, sequences = [],
          heap = [\<lparr>type = GROUP,
                    items = [Leaf (Word ''turn''), Leaf (Word ''on''), Ref 1, Leaf (Word ''light'')]\<rparr>,
                  \<lparr>type = ALTERNATIVE, items = [Leaf (Word ''the''), Leaf (Word '''')]\<rparr>]\<rparr>
     = Some [Sequence GROUP
               [Word ''turn'', Word ''on'', Sequence ALTERNATIVE [Word ''the'', Word ''''],
                Word ''light'']]"
    by code_simp
  show ?thesis
    unfolding parse_sentences_walk[OF nb] using assms w t by simp
qed

theorem optional_position_witness:
  "(\<lambda>text. [[NWord ''turn'', NWord ''on'', NOptional [NWord ''the''] [], NWord ''light'']])
       (''turn on [the] light'' @ [newline])
     = [[NWord ''turn'', NWord ''on'', NOptional [NWord ''the''] [], NWord ''light'']] \<and>
   (\<exists>st its.
      parse_sentences
        (\<lambda>text. [[NWord ''turn'', NWord ''on'', NOptional [NWord ''the''] [], NWord ''light'']])
        [''turn on [the] light''] init = Inr st \<and>
      sentence_trees st = Some [Sequence GROUP its] \<and> length its = 4 \<and>
      its ! 2 = Sequence ALTERNATIVE [Word ''the'', Word ''''])"
  using optional_position[of
      "\<lambda>text. [[NWord ''turn'', NWord ''on'', NOptional [NWord ''the''] [], NWord ''light'']]"]
  by simp

text \<open>
  C9, as stated, fails: \<open>sentences\<close> is set in \<open>__init__\<close> only, and
  \<open>exitSentence\<close> appends to it. The walk that \<open>parse_sentences\<close> runs for a text
  with the one sentence \<open>b\<close> leaves two sentences on a listener that has compiled
  \<open>a\<close> before, and one on a new listener (lemma \<open>parse_sentences_walk\<close>: for a text
  that is not blank, \<open>parse_sentences\<close> is this walk).
\<close>

theorem sentences_across_calls_counterexample:
  "walk (document_events [[NWord ''a'']]) init =
     Inr \<lparr>sentences = [0], sentence = None, sequences = [],
          heap = [\<lparr>type = GROUP, items = [Leaf (Word ''a'')]\<rparr>]\<rparr> \<and>
   walk (document_events [[NWord ''b'']])
     \<lparr>sentences = [0], sentence = None, sequences = [],
      heap = [\<lparr>type = GROUP, items = [Leaf (Word ''a'')]\<rparr>]\<rparr> =
     Inr \<lparr>sentences = [0, 1], sentence = None, sequences = [],
          heap = [\<lparr>type = GROUP, items = [Leaf (Word ''a'')]\<rparr>,
                  \<lparr>type = GROUP, items = [Leaf (Word ''b'')]\<rparr>]\<rparr> \<and>
   sentence_trees \<lparr>sentences = [0, 1], sentence = None, sequences = [],
          heap = [\<lparr>type = GROUP, items = [Leaf (Word ''a'')]\<rparr>,
                  \<lparr>type = GROUP, items = [Leaf (Word ''b'')]\<rparr>]\<rparr>
     = Some [Sequence GROUP [Word ''a''], Sequence GROUP [Word ''b'']] \<and>
   walk (document_events [[NWord ''b'']]) init =
     Inr \<lparr>sentences = [0], sentence = None, sequences = [],
          heap = [\<lparr>type = GROUP, items = [Leaf (Word ''b'')]\<rparr>]\<rparr> \<and>
   sentence_trees \<lparr>sentences = [0], sentence = None, sequences = [],
          heap = [\<lparr>type = GROUP, items = [Leaf (Word ''b'')]\<rparr>]\<rparr>
     = Some [Sequence GROUP [Word ''b'']] \<and>
   [Sequence GROUP [Word ''a''], Sequence GROUP [Word ''b'']] \<noteq> [Sequence GROUP [Word ''b'']]"
  by code_simp

text \<open>
  C9, amended. Across calls of \<open>parse_sentences\<close> on the same listener the list of
  sentences is kept and nothing else is: a call leaves the sentences the listener held
  before it, followed by the sentences of its own text, whose trees depend on that text
  only; the current sentence and the sequence stack are reset by every sentence. A call
  on a blank text changes nothing.
\<close>

theorem sentences_across_calls:
  assumes "sentence_trees st = Some old"
  shows "(strip (join lines @ [newline]) \<noteq> [] \<longrightarrow>
           (\<exists>st'. parse_sentences document lines st = Inr st' \<and>
              sentence_trees st' = Some (old @ map sentence_tree (document (join lines @ [newline]))) \<and>
              (if document (join lines @ [newline]) = []
               then sentence st' = sentence st \<and> sequences st' = sequences st
               else sentence st' = None \<and> sequences st' = []))) \<and>
         (strip (join lines @ [newline]) = [] \<longrightarrow> parse_sentences document lines st = Inr st)"
proof (intro conjI impI)
  assume nb: "strip (join lines @ [newline]) \<noteq> []"
  from sentence_trees_document[OF assms, of "document (join lines @ [newline])"]
  show "\<exists>st'. parse_sentences document lines st = Inr st' \<and>
              sentence_trees st' = Some (old @ map sentence_tree (document (join lines @ [newline]))) \<and>
              (if document (join lines @ [newline]) = []
               then sentence st' = sentence st \<and> sequences st' = sequences st
               else sentence st' = None \<and> sequences st' = [])"
    unfolding parse_sentences_walk[OF nb] by auto
next
  assume "strip (join lines @ [newline]) = []"
  then show "parse_sentences document lines st = Inr st" by (simp add: parse_sentences_def)
qed

theorem sentences_across_calls_witness:
  "sentence_trees \<lparr>sentences = [0], sentence = None, sequences = [],
       heap = [\<lparr>type = GROUP, items = [Leaf (Word ''a'')]\<rparr>]\<rparr> = Some [Sequence GROUP [Word ''a'']] \<and>
   strip (join [''b''] @ [newline]) \<noteq> [] \<and>
   (\<exists>st'. parse_sentences (\<lambda>text. [[NWord ''b'']]) [''b'']
            \<lparr>sentences = [0], sentence = None, sequences = [],
             heap = [\<lparr>type = GROUP, items = [Leaf (Word ''a'')]\<rparr>]\<rparr> = Inr st' \<and>
      sentence_trees st' = Some [Sequence GROUP [Word ''a''], Sequence GROUP [Word ''b'']] \<and>
      sentence st' = None \<and> sequences st' = []) \<and>
   strip (join [''  ''] @ [newline]) = [] \<and>
   parse_sentences (\<lambda>text. [[NWord ''b'']]) [''  '']
      \<lparr>sentences = [0], sentence = None, sequences = [],
       heap = [\<lparr>type = GROUP, items = [Leaf (Word ''a'')]\<rparr>]\<rparr>
     = Inr \<lparr>sentences = [0], sentence = None, sequences = [],
          heap = [\<lparr>type = GROUP, items = [Leaf (Word ''a'')]\<rparr>]\<rparr>"
proof -
  let ?st = "\<lparr>sentences = [0], sentence = None, sequences = [],
       heap = [\<lparr>type = GROUP, items = [Leaf (Word ''a'')]\<rparr>]\<rparr>"
  have old: "sentence_trees ?st = Some [Sequence GROUP [Word ''a'']]" by code_simp
  have nb: "strip (join [''b''] @ [newline]) \<noteq> []" "strip (join [''  ''] @ [newline]) = []"
    by code_simp+
  have t: "map sentence_tree [[NWord ''b'']] = [Sequence GROUP [Word ''b'']]" by code_simp
  show ?thesis
    using sentences_across_calls[OF old, of "[''b'']" "\<lambda>text. [[NWord ''b'']]"]
      sentences_across_calls[OF old, of "[''  '']" "\<lambda>text. [[NWord ''b'']]"] old nb t
    by simp
qed

text \<open>
  C10. A text that matches the integer pattern after \<open>strip\<close>, \<open>remove_escapes\<close> and
  \<open>remove_quotes\<close> gives a \<open>Number\<close>: the quotes are removed before the patterns are
  tried, so the quoted token \<open>"5"\<close> is the number 5. The pattern and the two text
  functions are modelled from the spec.
\<close>

theorem quoted_number:
  "(NUMBER_PATTERN (remove_quotes (remove_escapes (strip raw))) = Some g \<longrightarrow>
      word_item raw = Number (int_of g)) \<and>
   remove_quotes (remove_escapes (strip [CHR 0x22, CHR ''5'', CHR 0x22])) = ''5'' \<and>
   word_item [CHR 0x22, CHR ''5'', CHR 0x22] = Number 5"
proof -
  have "remove_quotes (remove_escapes (strip [CHR 0x22, CHR ''5'', CHR 0x22])) = ''5''"
    "word_item [CHR 0x22, CHR ''5'', CHR 0x22] = Number 5"
    by code_simp+
  then show ?thesis by (simp add: word_item_def)
qed

theorem quoted_number_witness:
  "NUMBER_PATTERN (remove_quotes (remove_escapes (strip [CHR 0x22, CHR ''5'', CHR 0x22])))
     = Some ''5'' \<and>
   word_item [CHR 0x22, CHR ''5'', CHR 0x22] = Number (int_of ''5'') \<and>
   int_of ''5'' = 5"
proof -
  have h: "NUMBER_PATTERN (remove_quotes (remove_escapes (strip [CHR 0x22, CHR ''5'', CHR 0x22])))
     = Some ''5''" by code_simp
  have i: "int_of ''5'' = 5" by code_simp
  show ?thesis using quoted_number[of "[CHR 0x22, CHR ''5'', CHR 0x22]" "''5''"] h i by simp
qed

end
